theory Spec2Isabelle
  imports Main "HOL-Library.Word" "HOL-Library.Signed_Division"
begin

unbundle bit_operations_syntax

section \<open>Shared memory and the typed-array views of \<open>sync.ts\<close>\<close>

text \<open>
  A \<open>SyncAsyncStream\<close> owns one \<open>SharedArrayBuffer\<close> and two views of it that are fixed
  by the constructor: \<open>#index\<close>, an \<open>Int32Array\<close> at byte offset 0, and \<open>#data\<close>, a
  \<open>Uint8Array\<close> at byte offset \<open>#indexBytes\<close>. The views hold no state of their own, so
  the object is modelled by the bytes of the buffer; every access below goes through the
  byte offsets of the view it uses, which keeps the overlap of the two views visible.
  JavaScript numbers are modelled by \<open>int\<close>: every number the class computes is an integer.
\<close>

type_synonym byte = "8 word"
type_synonym SharedArrayBuffer = "byte list"

datatype error = RangeError

definition indexBytes :: nat where
  "indexBytes = 3 * 4"

text \<open>
  \<open>new SharedArrayBuffer(n)\<close>: zero-filled, a negative length is a RangeError. A length
  the engine cannot allocate is not modelled.
\<close>

definition new_SharedArrayBuffer :: "int \<Rightarrow> error + SharedArrayBuffer" where
  "new_SharedArrayBuffer n = (if n < 0 then Inl RangeError else Inr (replicate (nat n) 0))"

text \<open>
  \<open>new Int32Array(buffer, byteOffset, length)\<close>: \<open>length\<close> counts 4-byte elements, and the
  view must fit into the buffer. \<open>new Uint8Array(buffer, byteOffset)\<close> runs to the end of the
  buffer. Both return the view's byte offset and element count.
\<close>

definition new_Int32Array :: "SharedArrayBuffer \<Rightarrow> nat \<Rightarrow> nat \<Rightarrow> error + (nat \<times> nat)" where
  "new_Int32Array buf byteOffset len =
     (if byteOffset mod 4 = 0 \<and> byteOffset + 4 * len \<le> length buf
      then Inr (byteOffset, len)
      else Inl RangeError)"

definition new_Uint8Array :: "SharedArrayBuffer \<Rightarrow> nat \<Rightarrow> error + (nat \<times> nat)" where
  "new_Uint8Array buf byteOffset =
     (if length buf < byteOffset then Inl RangeError
      else Inr (byteOffset, length buf - byteOffset))"

text \<open>
  The constructor, second overload (\<open>constructor(buffer)\<close>) and first overload
  (\<open>constructor(sizeInBytes)\<close>). It fails when either view cannot be created; the
  views it creates are always those of \<open>new_Int32Array buf 0 indexBytes\<close> and
  \<open>new_Uint8Array buf indexBytes\<close>, so the object it returns is given by its buffer.
\<close>

definition constructor_buffer :: "SharedArrayBuffer \<Rightarrow> error + SharedArrayBuffer" where
  "constructor_buffer buf =
     (case new_Int32Array buf 0 indexBytes of
        Inl e \<Rightarrow> Inl e
      | Inr index_view \<Rightarrow>
          (case new_Uint8Array buf indexBytes of
             Inl e \<Rightarrow> Inl e
           | Inr data_view \<Rightarrow> Inr buf))"

definition constructor_size :: "int \<Rightarrow> error + SharedArrayBuffer" where
  "constructor_size sizeInBytes =
     (case new_SharedArrayBuffer (sizeInBytes + int indexBytes) of
        Inl e \<Rightarrow> Inl e
      | Inr buf \<Rightarrow> constructor_buffer buf)"

subsection \<open>Atomics on \<open>#index\<close>\<close>

text \<open>
  Element \<open>i\<close> of the \<open>Int32Array\<close> at byte offset 0 is the four bytes \<open>4i .. 4i+3\<close>, read
  as a signed 32-bit integer (little-endian here). A store keeps the low 32 bits of the
  number. \<open>Atomics.notify\<close> changes no memory and has no counterpart in the model.
\<close>

definition ToInt32 :: "int \<Rightarrow> int" where
  "ToInt32 v = sint (word_of_int v :: 32 word)"

definition Atomics_load :: "SharedArrayBuffer \<Rightarrow> nat \<Rightarrow> int" where
  "Atomics_load buf i =
     ToInt32 (uint (buf ! (4 * i)) + 256 * (uint (buf ! (4 * i + 1))
              + 256 * (uint (buf ! (4 * i + 2)) + 256 * uint (buf ! (4 * i + 3)))))"

definition Atomics_store :: "SharedArrayBuffer \<Rightarrow> nat \<Rightarrow> int \<Rightarrow> SharedArrayBuffer" where
  "Atomics_store buf i v =
     buf[4 * i := word_of_int v, 4 * i + 1 := word_of_int (v div 256),
         4 * i + 2 := word_of_int (v div 256 div 256),
         4 * i + 3 := word_of_int (v div 256 div 256 div 256)]"

definition Atomics_or :: "SharedArrayBuffer \<Rightarrow> nat \<Rightarrow> int \<Rightarrow> SharedArrayBuffer" where
  "Atomics_or buf i v = Atomics_store buf i (Atomics_load buf i OR v)"

text \<open>
  \<open>Atomics.wait(index, i, expected, 10)\<close> returns at once when the element differs from
  \<open>expected\<close>; otherwise the caller is parked until a notify or the timeout, and whatever the
  counterpart does to the shared memory meanwhile is the function \<open>park\<close>, which threads the
  counterpart's own state \<open>'w\<close>. An idle counterpart is \<open>\<lambda>w buf. (w, buf)\<close>.
  \<open>await Atomics.waitAsync(index, i, expected, 10).value\<close> has the same shape with the task
  suspended instead of the thread.
\<close>

type_synonym 'w counterpart = "'w \<Rightarrow> SharedArrayBuffer \<Rightarrow> 'w \<times> SharedArrayBuffer"

definition Atomics_wait ::
  "'w counterpart \<Rightarrow> 'w \<Rightarrow> SharedArrayBuffer \<Rightarrow> nat \<Rightarrow> int
     \<Rightarrow> 'w \<times> SharedArrayBuffer" where
  "Atomics_wait park w buf i expected =
     (if Atomics_load buf i \<noteq> expected then (w, buf) else park w buf)"

definition Atomics_waitAsync ::
  "'w counterpart \<Rightarrow> 'w \<Rightarrow> SharedArrayBuffer \<Rightarrow> nat \<Rightarrow> int
     \<Rightarrow> 'w \<times> SharedArrayBuffer" where
  "Atomics_waitAsync suspend w buf i expected =
     (if Atomics_load buf i \<noteq> expected then (w, buf) else suspend w buf)"

subsection \<open>\<open>Uint8Array\<close> operations\<close>

text \<open>
  \<open>a.subarray(begin, end)\<close> clamps both bounds into the array, a negative bound counting
  from the end; \<open>target.set(source, offset)\<close> throws a RangeError unless the source fits.
\<close>

definition subarray :: "'a list \<Rightarrow> int \<Rightarrow> int \<Rightarrow> 'a list" where
  "subarray xs begin end =
     (let len = int (length xs);
          b = (if begin < 0 then max (len + begin) 0 else min begin len);
          e = (if end < 0 then max (len + end) 0 else min end len)
      in take (nat (e - b)) (drop (nat b) xs))"

definition TypedArray_set :: "byte list \<Rightarrow> byte list \<Rightarrow> int \<Rightarrow> error + byte list" where
  "TypedArray_set target source offset =
     (if offset < 0 \<or> int (length target) < int (length source) + offset then Inl RangeError
      else Inr (take (nat offset) target @ source
                @ drop (nat offset + length source) target))"

text \<open>\<open>#data\<close> is the view of the buffer from byte \<open>#indexBytes\<close> on.\<close>

definition data :: "SharedArrayBuffer \<Rightarrow> byte list" where
  "data buf = drop indexBytes buf"

definition data_length :: "SharedArrayBuffer \<Rightarrow> int" where
  "data_length buf = int (length (data buf))"

definition data_set :: "SharedArrayBuffer \<Rightarrow> byte list \<Rightarrow> int \<Rightarrow> error + SharedArrayBuffer" where
  "data_set buf source offset =
     (case TypedArray_set (data buf) source offset of
        Inl e \<Rightarrow> Inl e
      | Inr d \<Rightarrow> Inr (take indexBytes buf @ d))"

section \<open>The stream's private accessors\<close>

definition closed :: "SharedArrayBuffer \<Rightarrow> bool" where
  "closed buf = (Atomics_load buf 2 \<noteq> 0)"

definition setClosed :: "SharedArrayBuffer \<Rightarrow> SharedArrayBuffer" where
  "setClosed buf = Atomics_or buf 2 1"

definition endOfStream :: "SharedArrayBuffer \<Rightarrow> bool" where
  "endOfStream buf = (1 < Atomics_load buf 2)"

definition setEndOfStream :: "SharedArrayBuffer \<Rightarrow> SharedArrayBuffer" where
  "setEndOfStream buf = Atomics_or buf 2 2"

definition readPosition :: "SharedArrayBuffer \<Rightarrow> int" where
  "readPosition buf = Atomics_load buf 0"

definition writePosition :: "SharedArrayBuffer \<Rightarrow> int" where
  "writePosition buf = Atomics_load buf 1"

definition set_readPosition :: "SharedArrayBuffer \<Rightarrow> int \<Rightarrow> SharedArrayBuffer" where
  "set_readPosition buf pos = Atomics_store buf 0 pos"

definition set_writePosition :: "SharedArrayBuffer \<Rightarrow> int \<Rightarrow> SharedArrayBuffer" where
  "set_writePosition buf pos = Atomics_store buf 1 pos"

text \<open>
  The third control word, which the source reads only inside \<open>#closed\<close> and
  \<open>#endOfStream\<close>, has a name of its own here.
\<close>

definition state :: "SharedArrayBuffer \<Rightarrow> int" where
  "state buf = Atomics_load buf 2"

section \<open>\<open>close\<close> and \<open>reset\<close>\<close>

definition close :: "SharedArrayBuffer \<Rightarrow> SharedArrayBuffer" where
  "close buf = setClosed buf"

definition reset :: "SharedArrayBuffer \<Rightarrow> SharedArrayBuffer" where
  "reset buf = fold (\<lambda>i b. Atomics_store b i 0) [0..<3] buf"

section \<open>\<open>#writeBytes\<close> and \<open>#readBytes\<close>\<close>

text \<open>
  JavaScript's \<open>%\<close> takes the sign of the dividend, which is \<open>smod\<close>. Its divisor here is
  \<open>#data.length\<close>, which is at least 36 for every object the constructor returns, so the
  zero divisor, whose remainder JavaScript gives as NaN, does not occur.
  \<open>#writeBytes\<close> returns the buffer after the call and the pair
  \<open>[bytesToWrite, currentReadPosition]\<close>.
\<close>

definition writeBytes ::
  "SharedArrayBuffer \<Rightarrow> byte list \<Rightarrow> error + (SharedArrayBuffer \<times> int \<times> int)" where
  "writeBytes buf bytes =
     (let currentWritePosition = writePosition buf;
          currentReadPosition = readPosition buf
      in if (currentWritePosition + 1) smod data_length buf = currentReadPosition
         then Inr (buf, 0, currentReadPosition)
         else
           let contiguousSpace =
                 (if currentReadPosition > currentWritePosition
                  then currentReadPosition - currentWritePosition
                  else data_length buf - currentWritePosition);
               bytesToWrite = min (int (length bytes)) contiguousSpace;
               nextWritePosition = (currentWritePosition + bytesToWrite) smod data_length buf;
               collision = (nextWritePosition = currentReadPosition);
               bytesToWrite = (if collision then bytesToWrite - 1 else bytesToWrite);
               nextWritePosition =
                 (if collision
                  then (if nextWritePosition - 1 < 0 then nextWritePosition - 1 + data_length buf
                        else nextWritePosition - 1)
                  else nextWritePosition)
           in case data_set buf (subarray bytes 0 bytesToWrite) currentWritePosition of
                Inl e \<Rightarrow> Inl e
              | Inr buf' \<Rightarrow>
                  Inr (set_writePosition buf' nextWritePosition, bytesToWrite,
                       currentReadPosition))"

text \<open>\<open>#readBytes\<close> returns the buffer and the target after the call and \<open>bytesToRead\<close>.\<close>

definition readBytes ::
  "SharedArrayBuffer \<Rightarrow> byte list \<Rightarrow> int \<Rightarrow> error + (SharedArrayBuffer \<times> byte list \<times> int)" where
  "readBytes buf target offset =
     (let currentWritePosition = writePosition buf;
          currentReadPosition = readPosition buf;
          contiguousData =
            (if currentReadPosition < currentWritePosition
             then currentWritePosition - currentReadPosition
             else data_length buf - currentReadPosition);
          bytesToRead = min (int (length target) - offset) contiguousData
      in case TypedArray_set target
                (subarray (data buf) currentReadPosition (currentReadPosition + bytesToRead))
                offset of
           Inl e \<Rightarrow> Inl e
         | Inr target' \<Rightarrow>
             Inr (set_readPosition buf
                    ((currentReadPosition + bytesToRead) smod data_length buf),
                  target', bytesToRead))"

section \<open>\<open>write\<close>, \<open>writeSync\<close>, \<open>read\<close>, \<open>readSync\<close>\<close>

text \<open>
  The loops may run forever (a full buffer that nobody drains, an empty one that nobody
  fills), so they are partial functions: \<open>None\<close> is a call that never returns,
  \<open>Some (Inl e)\<close> a call that throws, \<open>Some (Inr r)\<close> one that returns. The result holds the
  counterpart's state, the buffer, for a read the target, and the returned number.
\<close>

partial_function (option) writeSync_loop ::
  "'w counterpart \<Rightarrow> 'w \<Rightarrow> SharedArrayBuffer \<Rightarrow> byte list
     \<Rightarrow> int \<Rightarrow> (error + ('w \<times> SharedArrayBuffer \<times> int)) option" where
  "writeSync_loop park w buf source totalBytesWritten =
     (if totalBytesWritten < int (length source) then
        (case writeBytes buf (subarray source totalBytesWritten (int (length source))) of
           Inl e \<Rightarrow> Some (Inl e)
         | Inr (buf', bytesWritten, checkedReadPosition) \<Rightarrow>
             if bytesWritten > 0
             then writeSync_loop park w buf' source (totalBytesWritten + bytesWritten)
             else (case Atomics_wait park w buf' 0 checkedReadPosition of
                     (w', buf'') \<Rightarrow> writeSync_loop park w' buf'' source totalBytesWritten))
      else Some (Inr (w, buf, totalBytesWritten)))"

definition writeSync ::
  "'w counterpart \<Rightarrow> 'w \<Rightarrow> SharedArrayBuffer \<Rightarrow> byte list
     \<Rightarrow> (error + ('w \<times> SharedArrayBuffer \<times> int)) option" where
  "writeSync park w buf source = writeSync_loop park w buf source 0"

partial_function (option) write_async_loop ::
  "'w counterpart \<Rightarrow> 'w \<Rightarrow> SharedArrayBuffer \<Rightarrow> byte list
     \<Rightarrow> int \<Rightarrow> (error + ('w \<times> SharedArrayBuffer \<times> int)) option" where
  "write_async_loop suspend w buf source totalBytesWritten =
     (if totalBytesWritten < int (length source) then
        (case writeBytes buf (subarray source totalBytesWritten (int (length source))) of
           Inl e \<Rightarrow> Some (Inl e)
         | Inr (buf', bytesWritten, checkedReadPosition) \<Rightarrow>
             if bytesWritten > 0
             then write_async_loop suspend w buf' source (totalBytesWritten + bytesWritten)
             else (case Atomics_waitAsync suspend w buf' 0 checkedReadPosition of
                     (w', buf'') \<Rightarrow> write_async_loop suspend w' buf'' source totalBytesWritten))
      else Some (Inr (w, buf, totalBytesWritten)))"

definition write_async ::
  "'w counterpart \<Rightarrow> 'w \<Rightarrow> SharedArrayBuffer \<Rightarrow> byte list
     \<Rightarrow> (error + ('w \<times> SharedArrayBuffer \<times> int)) option" where
  "write_async suspend w buf source = write_async_loop suspend w buf source 0"

text \<open>
  \<open>write_async\<close> is the source's \<open>write\<close>, a name Isabelle reserves.
  In \<open>read\<close> and \<open>readSync\<close> the inner loop waits for data and the outer one counts; after a
  wait the inner loop tests emptiness again with \<open>bytesRead\<close> unchanged, so one recursion
  serves both.
\<close>

partial_function (option) readSync_loop ::
  "'w counterpart \<Rightarrow> 'w \<Rightarrow> SharedArrayBuffer \<Rightarrow> byte list
     \<Rightarrow> int \<Rightarrow> int \<Rightarrow> int \<Rightarrow> (error + ('w \<times> SharedArrayBuffer \<times> byte list \<times> int)) option" where
  "readSync_loop park w buf target offset limit bytesRead =
     (if bytesRead < limit then
        (let checkedWritePosition = writePosition buf
         in if readPosition buf = checkedWritePosition then
              (if closed buf then Some (Inr (w, setEndOfStream buf, target, bytesRead))
               else (case Atomics_wait park w buf 1 checkedWritePosition of
                       (w', buf') \<Rightarrow> readSync_loop park w' buf' target offset limit bytesRead))
            else
              (case readBytes buf target (offset + bytesRead) of
                 Inl e \<Rightarrow> Some (Inl e)
               | Inr (buf', target', n) \<Rightarrow>
                   readSync_loop park w buf' target' offset limit (bytesRead + n)))
      else Some (Inr (w, buf, target, bytesRead)))"

definition readSync ::
  "'w counterpart \<Rightarrow> 'w \<Rightarrow> SharedArrayBuffer \<Rightarrow> byte list
     \<Rightarrow> int \<Rightarrow> int \<Rightarrow> (error + ('w \<times> SharedArrayBuffer \<times> byte list \<times> int)) option" where
  "readSync park w buf target offset limit =
     (if endOfStream buf then Some (Inr (w, buf, target, - 1))
      else readSync_loop park w buf target offset limit 0)"

partial_function (option) read_loop ::
  "'w counterpart \<Rightarrow> 'w \<Rightarrow> SharedArrayBuffer \<Rightarrow> byte list
     \<Rightarrow> int \<Rightarrow> int \<Rightarrow> int \<Rightarrow> (error + ('w \<times> SharedArrayBuffer \<times> byte list \<times> int)) option" where
  "read_loop suspend w buf target offset limit bytesRead =
     (if bytesRead < limit then
        (let checkedWritePosition = writePosition buf
         in if readPosition buf = checkedWritePosition then
              (if closed buf then Some (Inr (w, setEndOfStream buf, target, bytesRead))
               else (case Atomics_waitAsync suspend w buf 1 checkedWritePosition of
                       (w', buf') \<Rightarrow> read_loop suspend w' buf' target offset limit bytesRead))
            else
              (case readBytes buf target (offset + bytesRead) of
                 Inl e \<Rightarrow> Some (Inl e)
               | Inr (buf', target', n) \<Rightarrow>
                   read_loop suspend w buf' target' offset limit (bytesRead + n)))
      else Some (Inr (w, buf, target, bytesRead)))"

definition read ::
  "'w counterpart \<Rightarrow> 'w \<Rightarrow> SharedArrayBuffer \<Rightarrow> byte list
     \<Rightarrow> int \<Rightarrow> int \<Rightarrow> (error + ('w \<times> SharedArrayBuffer \<times> byte list \<times> int)) option" where
  "read suspend w buf target offset limit =
     (if endOfStream buf then Some (Inr (w, buf, target, - 1))
      else read_loop suspend w buf target offset limit 0)"

section \<open>Specification vocabulary\<close>

text \<open>
  The capacity is the length of \<open>#data\<close>. A stream object is in order when its buffer is
  one the constructor accepts, both cursors lie in \<open>[0, capacity)\<close>, and the capacity is at
  most \<open>2^31\<close>, so that every cursor fits the signed 32-bit control word that stores it.
  The unread bytes are those from the read cursor up to the write cursor, around the end of
  the array when the write cursor has wrapped.
\<close>

declare writeSync_loop.simps [code]
declare write_async_loop.simps [code]
declare readSync_loop.simps [code]
declare read_loop.simps [code]

definition capacity :: "SharedArrayBuffer \<Rightarrow> nat" where
  "capacity buf = length (data buf)"

definition stream_inv :: "SharedArrayBuffer \<Rightarrow> bool" where
  "stream_inv buf \<longleftrightarrow>
     48 \<le> length buf \<and> data_length buf \<le> 2147483648
     \<and> 0 \<le> readPosition buf \<and> readPosition buf < data_length buf
     \<and> 0 \<le> writePosition buf \<and> writePosition buf < data_length buf"

definition ring :: "'a list \<Rightarrow> nat \<Rightarrow> nat \<Rightarrow> 'a list" where
  "ring d r w = (if r \<le> w then take (w - r) (drop r d) else drop r d @ take w d)"

definition unread :: "SharedArrayBuffer \<Rightarrow> byte list" where
  "unread buf = ring (data buf) (nat (readPosition buf)) (nat (writePosition buf))"

definition full :: "SharedArrayBuffer \<Rightarrow> bool" where
  "full buf \<longleftrightarrow> (writePosition buf + 1) mod data_length buf = readPosition buf"

text \<open>
  Sequences of calls, for statements about more than one call: each write call is
  \<open>write\<close> or \<open>writeSync\<close> with its source, each read call is \<open>read\<close> or \<open>readSync\<close> with
  its target, offset and limit. A sequence stops at the first call that throws and does not
  return if one of its calls does not. What a read call delivers is the part of its target
  from the offset on, as long as the number it returned.
\<close>

datatype write_call = Write "byte list" | WriteSync "byte list"

fun source_of :: "write_call \<Rightarrow> byte list" where
  "source_of (Write source) = source"
| "source_of (WriteSync source) = source"

fun do_write ::
  "'w counterpart \<Rightarrow> 'w \<Rightarrow> SharedArrayBuffer \<Rightarrow> write_call
     \<Rightarrow> (error + ('w \<times> SharedArrayBuffer \<times> int)) option" where
  "do_write cp w buf (Write source) = write_async cp w buf source"
| "do_write cp w buf (WriteSync source) = writeSync cp w buf source"

fun writes ::
  "'w counterpart \<Rightarrow> 'w \<Rightarrow> SharedArrayBuffer
     \<Rightarrow> write_call list \<Rightarrow> (error + ('w \<times> SharedArrayBuffer \<times> int list)) option" where
  "writes cp w buf [] = Some (Inr (w, buf, []))"
| "writes cp w buf (c # cs) =
     (case do_write cp w buf c of
        None \<Rightarrow> None
      | Some (Inl e) \<Rightarrow> Some (Inl e)
      | Some (Inr (w', buf', n)) \<Rightarrow>
          (case writes cp w' buf' cs of
             None \<Rightarrow> None
           | Some (Inl e) \<Rightarrow> Some (Inl e)
           | Some (Inr (w'', buf'', ns)) \<Rightarrow> Some (Inr (w'', buf'', n # ns))))"

datatype read_call = Read "byte list" int int | ReadSync "byte list" int int

fun target_of :: "read_call \<Rightarrow> byte list" where
  "target_of (Read target offset limit) = target"
| "target_of (ReadSync target offset limit) = target"

fun offset_of :: "read_call \<Rightarrow> int" where
  "offset_of (Read target offset limit) = offset"
| "offset_of (ReadSync target offset limit) = offset"

fun limit_of :: "read_call \<Rightarrow> int" where
  "limit_of (Read target offset limit) = limit"
| "limit_of (ReadSync target offset limit) = limit"

fun do_read ::
  "'w counterpart \<Rightarrow> 'w \<Rightarrow> SharedArrayBuffer \<Rightarrow> read_call
     \<Rightarrow> (error + ('w \<times> SharedArrayBuffer \<times> byte list \<times> int)) option" where
  "do_read cp w buf (Read target offset limit) = read cp w buf target offset limit"
| "do_read cp w buf (ReadSync target offset limit) = readSync cp w buf target offset limit"

fun reads ::
  "'w counterpart \<Rightarrow> 'w \<Rightarrow> SharedArrayBuffer
     \<Rightarrow> read_call list
     \<Rightarrow> (error + ('w \<times> SharedArrayBuffer \<times> (byte list \<times> int) list)) option" where
  "reads cp w buf [] = Some (Inr (w, buf, []))"
| "reads cp w buf (c # cs) =
     (case do_read cp w buf c of
        None \<Rightarrow> None
      | Some (Inl e) \<Rightarrow> Some (Inl e)
      | Some (Inr (w', buf', target', n)) \<Rightarrow>
          (case reads cp w' buf' cs of
             None \<Rightarrow> None
           | Some (Inl e) \<Rightarrow> Some (Inl e)
           | Some (Inr (w'', buf'', outs)) \<Rightarrow> Some (Inr (w'', buf'', (target', n) # outs))))"

definition delivered :: "read_call \<Rightarrow> byte list \<times> int \<Rightarrow> byte list" where
  "delivered c out = take (nat (snd out)) (drop (nat (offset_of c)) (fst out))"



text \<open>The counterpart that does nothing while the caller waits.\<close>

definition idle :: "unit counterpart" where
  "idle w buf = (w, buf)"

section \<open>Control words and data region: the byte-level facts\<close>

lemma ToInt32_arith: "ToInt32 v = (v + 2 ^ 31) mod 2 ^ 32 - 2 ^ 31"
  unfolding ToInt32_def by (simp add: int_word_sint)

lemma ToInt32_mod: "ToInt32 (v mod 4294967296) = ToInt32 v"
  unfolding ToInt32_arith by (simp add: mod_add_left_eq)

lemma ToInt32_id: "- 2147483648 \<le> v \<Longrightarrow> v < 2147483648 \<Longrightarrow> ToInt32 v = v"
  unfolding ToInt32_arith by simp

lemma horner_step: "0 < a \<Longrightarrow> 0 < b \<Longrightarrow> (v::int) mod a + a * (v div a mod b) = v mod (a * b)"
  using zmod_zmult2_eq [of b v a] by simp

lemma bytes_sum:
  "(v::int) mod 256 + 256 * (v div 256 mod 256 + 256 * (v div 256 div 256 mod 256
      + 256 * (v div 256 div 256 div 256 mod 256))) = v mod 4294967296"
proof -
  have "(v::int) mod 256 + 256 * (v div 256 mod 256 + 256 * (v div 256 div 256 mod 256
      + 256 * (v div 256 div 256 div 256 mod 256)))
      = v mod 256 + 256 * (v div 256 mod 256 + 256 * (v div 256 div 256 mod (256 * 256)))"
    by (simp only: horner_step [of 256 256 "v div 256 div 256"])
  also have "\<dots> = v mod 256 + 256 * (v div 256 mod (256 * (256 * 256)))"
    by (simp only: horner_step [of 256 "256 * 256" "v div 256"])
  also have "\<dots> = v mod (256 * (256 * (256 * 256)))"
    by (simp only: horner_step [of 256 "256 * (256 * 256)" v])
  also have "\<dots> = v mod 4294967296" by simp
  finally show ?thesis .
qed

lemma Atomics_load_store_same:
  assumes "4 * i + 3 < length buf"
  shows "Atomics_load (Atomics_store buf i v) i = ToInt32 v"
proof -
  have "Atomics_load (Atomics_store buf i v) i
      = ToInt32 (v mod 256 + 256 * (v div 256 mod 256 + 256 * (v div 256 div 256 mod 256
          + 256 * (v div 256 div 256 div 256 mod 256))))"
    using assms
    by (simp add: Atomics_load_def Atomics_store_def uint_word_of_int take_bit_eq_mod)
  also have "\<dots> = ToInt32 (v mod 4294967296)" by (simp only: bytes_sum)
  also have "\<dots> = ToInt32 v" by (rule ToInt32_mod)
  finally show ?thesis .
qed

lemma Atomics_load_store_other:
  "i \<noteq> j \<Longrightarrow> Atomics_load (Atomics_store buf i v) j = Atomics_load buf j"
  by (simp add: Atomics_store_def Atomics_load_def)

lemma length_Atomics_store: "length (Atomics_store buf i v) = length buf"
  by (simp add: Atomics_store_def)

lemma data_Atomics_store: "i < 3 \<Longrightarrow> data (Atomics_store buf i v) = data buf"
  by (simp add: Atomics_store_def data_def indexBytes_def)

lemma Atomics_load_data_region:
  "i < 3 \<Longrightarrow> 12 \<le> length buf \<Longrightarrow> Atomics_load (take indexBytes buf @ d) i = Atomics_load buf i"
  by (simp add: Atomics_load_def indexBytes_def nth_append)

lemma data_data_region: "12 \<le> length buf \<Longrightarrow> data (take indexBytes buf @ d) = d"
  by (simp add: data_def indexBytes_def)


section \<open>Clamping, and the ring as a list\<close>

lemma smod_nonneg: "0 \<le> a \<Longrightarrow> 0 < b \<Longrightarrow> (a::int) smod b = a mod b"
  by (simp add: smod_int_alt_def sgn_if)

lemma subarray_take: "0 \<le> k \<Longrightarrow> subarray xs 0 k = take (nat k) xs"
  by (auto simp: subarray_def Let_def min_def)

lemma subarray_drop: "0 \<le> t \<Longrightarrow> subarray xs t (int (length xs)) = drop (nat t) xs"
  by (auto simp: subarray_def Let_def min_def)

lemma subarray_mid:
  "0 \<le> r \<Longrightarrow> 0 \<le> n \<Longrightarrow> subarray xs r (r + n) = take (nat n) (drop (nat r) xs)"
  by (auto simp: subarray_def Let_def min_def nat_add_distrib)

lemma length_ring:
  "r < length d \<Longrightarrow> w < length d \<Longrightarrow>
   length (ring d r w) = (if r \<le> w then w - r else length d - r + w)"
  by (auto simp: ring_def)

lemma ring_write:
  assumes "r < length d" "w < length d" "length chunk \<le> length d - w"
    "length (ring d r w) + length chunk < length d"
  shows "ring (take w d @ chunk @ drop (w + length chunk) d) r ((w + length chunk) mod length d)
         = ring d r w @ chunk"
proof (cases "w + length chunk < length d")
  case True
  then show ?thesis using assms
    by (auto simp: ring_def drop_take)
next
  case False
  then have e: "w + length chunk = length d" using assms by simp
  then show ?thesis using assms
    by (auto simp: ring_def drop_take)
qed

lemma ring_read:
  assumes "r < length d" "w < length d" "r \<noteq> w"
    "n \<le> (if r < w then w - r else length d - r)"
  shows "take n (drop r d) = take n (ring d r w)"
    and "ring d ((r + n) mod length d) w = drop n (ring d r w)"
proof -
  show "take n (drop r d) = take n (ring d r w)" using assms by (auto simp: ring_def min_def)
  show "ring d ((r + n) mod length d) w = drop n (ring d r w)"
  proof (cases "r + n < length d")
    case True
    then show ?thesis using assms by (auto simp: ring_def drop_take add.commute)
  next
    case False
    then have e: "r + n = length d" using assms by (auto split: if_splits)
    then show ?thesis using assms
      by (auto simp: ring_def drop_take add.commute split: if_splits)
  qed
qed


section \<open>One attempt of the producer\<close>

lemma inv_nat:
  assumes "stream_inv buf"
  obtains r w c where "readPosition buf = int r" "writePosition buf = int w"
    "data_length buf = int c" "capacity buf = c" "length (data buf) = c" "r < c" "w < c" "36 \<le> c" "c \<le> 2147483648"
    "length buf = c + 12"
proof -
  from assms have a: "48 \<le> length buf" "data_length buf \<le> 2147483648"
     "0 \<le> readPosition buf" "readPosition buf < data_length buf"
     "0 \<le> writePosition buf" "writePosition buf < data_length buf"
    by (auto simp: stream_inv_def)
  show thesis
    apply (rule that [of "nat (readPosition buf)" "nat (writePosition buf)" "capacity buf"])
    using a by (auto simp: data_length_def capacity_def data_def indexBytes_def)
qed

lemma accessors_set_writePosition:
  assumes "12 \<le> length buf"
  shows "readPosition (set_writePosition buf v) = readPosition buf"
    "writePosition (set_writePosition buf v) = ToInt32 v"
    "state (set_writePosition buf v) = state buf"
    "data (set_writePosition buf v) = data buf"
    "length (set_writePosition buf v) = length buf"
  using assms
  by (simp_all add: readPosition_def writePosition_def state_def set_writePosition_def
      Atomics_load_store_other Atomics_load_store_same length_Atomics_store data_Atomics_store)

lemma accessors_set_readPosition:
  assumes "12 \<le> length buf"
  shows "readPosition (set_readPosition buf v) = ToInt32 v"
    "writePosition (set_readPosition buf v) = writePosition buf"
    "state (set_readPosition buf v) = state buf"
    "data (set_readPosition buf v) = data buf"
    "length (set_readPosition buf v) = length buf"
  using assms
  by (simp_all add: readPosition_def writePosition_def state_def set_readPosition_def
      Atomics_load_store_other Atomics_load_store_same length_Atomics_store data_Atomics_store)

lemma accessors_data_region:
  assumes "12 \<le> length buf"
  shows "readPosition (take indexBytes buf @ d) = readPosition buf"
    "writePosition (take indexBytes buf @ d) = writePosition buf"
    "state (take indexBytes buf @ d) = state buf"
    "data (take indexBytes buf @ d) = d"
    "length (take indexBytes buf @ d) = 12 + length d"
  using assms
  by (simp_all add: readPosition_def writePosition_def state_def Atomics_load_data_region
      data_data_region) (simp add: indexBytes_def)

lemma writeBytes_full: "(writePosition buf + 1) smod data_length buf = readPosition buf \<Longrightarrow> writeBytes buf bytes = Inr (buf, 0, readPosition buf)"
  by (simp add: writeBytes_def)

lemma full_smod: "stream_inv buf \<Longrightarrow> full buf \<longleftrightarrow> (writePosition buf + 1) smod data_length buf = readPosition buf"
  by (erule inv_nat) (simp add: full_def smod_nonneg)

lemma writeBytes_int:
  assumes "readPosition buf = r" "writePosition buf = w" "data_length buf = c"
    "(w + 1) smod c \<noteq> r"
    "(if r > w then r - w else c - w) = S"
    "min (int (length bytes)) S = k0"
    "(w + k0) smod c = nx0"
  shows "writeBytes buf bytes =
    (case data_set buf (subarray bytes 0 (if nx0 = r then k0 - 1 else k0)) w of
       Inl e \<Rightarrow> Inl e
     | Inr buf' \<Rightarrow>
         Inr (set_writePosition buf'
                (if nx0 = r then (if nx0 - 1 < 0 then nx0 - 1 + c else nx0 - 1) else nx0),
              (if nx0 = r then k0 - 1 else k0), r))"
proof -
  have nf: "((writePosition buf + 1) smod data_length buf = readPosition buf) = False"
    using assms(1-4) by simp
  show ?thesis
    unfolding assms(7)[symmetric] assms(6)[symmetric] assms(5)[symmetric] assms(1-3)[symmetric]
      writeBytes_def Let_def
    by (simp only: nf if_False)
qed

lemma data_set_ok:
  assumes "0 \<le> off" "int (length src) + off \<le> data_length buf"
  shows "data_set buf src off =
    Inr (take indexBytes buf @ take (nat off) (data buf) @ src
         @ drop (nat off + length src) (data buf))"
  using assms unfolding data_set_def TypedArray_set_def data_length_def by simp

lemma writeBytes_chunk:
  assumes rp: "readPosition buf = int r" and wp: "writePosition buf = int w"
    and dl: "data_length buf = int c" and c: "0 < c" "w < c"
    and nf: "(int w + 1) mod int c \<noteq> int r"
    and S: "(if int r > int w then int r - int w else int c - int w) = int S"
    and k0: "min (length bytes) S = k0"
    and coll: "((w + k0) mod c = r) = coll"
    and k: "(if coll then k0 - 1 else k0) = k" and kpos: "0 < k0"
    and nx: "(if coll then (if r = 0 then c - 1 else r - 1) else (w + k0) mod c) = nx"
    and fit: "w + k \<le> c"
  shows "writeBytes buf bytes =
    Inr (set_writePosition (take indexBytes buf @ take w (data buf) @ take k bytes
                            @ drop (w + k) (data buf)) (int nx), int k, readPosition buf)"
proof -
  have nf': "(int w + 1) smod int c \<noteq> int r" using nf c by (simp add: smod_nonneg)
  have k0': "min (int (length bytes)) (int S) = int k0" using k0 by (simp add: min_def split: if_splits)
  have m: "(int w + int k0) smod int c = int ((w + k0) mod c)"
    using c by (simp add: smod_nonneg zmod_int)
  have kle: "k \<le> length bytes" using k0 k by (auto split: if_splits)
  have k': "(if int ((w + k0) mod c) = int r then int k0 - 1 else int k0) = int k"
    using coll k kpos by (auto split: if_splits)
  have nx': "(if int ((w + k0) mod c) = int r
       then (if int ((w + k0) mod c) - 1 < 0 then int ((w + k0) mod c) - 1 + int c else int ((w + k0) mod c) - 1)
       else int ((w + k0) mod c)) = int nx"
    using coll nx c by (auto split: if_splits)
  have sub: "subarray bytes 0 (int k) = take k bytes" by (simp add: subarray_take)
  have lt: "length (take k bytes) = k" using kle by simp
  have ds: "data_set buf (take k bytes) (int w) =
    Inr (take indexBytes buf @ take w (data buf) @ take k bytes @ drop (w + k) (data buf))"
    using data_set_ok [of "int w" "take k bytes" buf] fit dl unfolding lt by simp
  show ?thesis
    unfolding writeBytes_int [OF rp wp dl nf' S k0' m] k' nx' sub ds rp by simp
qed


lemma writeBytes_nonfull:
  assumes inv: "stream_inv buf" and nf: "\<not> full buf" and ne: "bytes \<noteq> []"
  defines "w \<equiv> nat (writePosition buf)"
  defines "k \<equiv> min (length bytes) (min (capacity buf - w) (capacity buf - 1 - length (unread buf)))"
  shows "writeBytes buf bytes = Inr (set_writePosition (take indexBytes buf @ take w (data buf) @ take k bytes @ drop (w + k) (data buf)) (int ((w + k) mod capacity buf)), int k, readPosition buf)"
    and "0 < k"
proof -
  from inv obtain r w' c where f: "readPosition buf = int r" "writePosition buf = int w'"
    "data_length buf = int c" "capacity buf = c" "length (data buf) = c" "r < c" "w' < c" "36 \<le> c" "c \<le> 2147483648"
    "length buf = c + 12" by (rule inv_nat)
  have w: "w' = w" using f(2) by (simp add: w_def)
  have wp: "writePosition buf = int w" using f(2) w by simp
  have wc: "w < c" and c0: "0 < c" using f(7,8) w by simp_all
  have nf': "(int w + 1) mod int c \<noteq> int r" using nf f(1,3) wp by (simp add: full_def)
  have lu: "length (unread buf) = (if r \<le> w then w - r else c - r + w)"
    unfolding unread_def f(1) wp using f(5,6) wc by (simp add: length_ring)
  have nf1: "w + 1 \<noteq> r"
  proof
    assume e: "w + 1 = r"
    then have "(int w + 1) mod int c = int r" using f(6) by (simp add: mod_pos_pos_trivial)
    then show False using nf' by simp
  qed
  have nf2: "r = 0 \<longrightarrow> w + 1 < c"
  proof (rule impI, rule ccontr)
    assume "r = 0" "\<not> w + 1 < c"
    then have "int w + 1 = int c" using wc by simp
    then have "(int w + 1) mod int c = int r" using \<open>r = 0\<close> by simp
    then show False using nf' by simp
  qed
  have lb: "1 \<le> length bytes" using ne by (cases bytes) simp_all
  have kk: "k = min (length bytes) (min (c - w) (c - 1 - (if r \<le> w then w - r else c - r + w)))"
    unfolding k_def f(4) lu ..
  show "0 < k"
    unfolding kk using ne lb f(6) wc nf1 nf2 by (cases "r \<le> w"; cases "r = 0"; simp)
  note chunk = writeBytes_chunk [OF f(1) wp f(3) c0 wc nf']
  consider (A1) "w < r" "length bytes < r - w" | (A2) "w < r" "r - w \<le> length bytes"
    | (B1) "r \<le> w" "length bytes < c - w" | (B2a) "r \<le> w" "c - w \<le> length bytes" "r = 0"
    | (B2b) "r \<le> w" "c - w \<le> length bytes" "r \<noteq> 0"
    by linarith
  then show "writeBytes buf bytes = Inr (set_writePosition (take indexBytes buf @ take w (data buf) @ take k bytes @ drop (w + k) (data buf)) (int ((w + k) mod capacity buf)), int k, readPosition buf)"
  proof cases
    case A1
    have k: "k = length bytes" unfolding kk using A1 f(6) by simp
    have nxe: "(w + length bytes) mod c = w + length bytes" using A1 f(6) by simp
    have S: "(if int r > int w then int r - int w else int c - int w) = int (r - w)" using A1 by simp
    have k0: "min (length bytes) (r - w) = length bytes" using A1 by simp
    have coll: "((w + length bytes) mod c = r) = False" unfolding nxe using A1 by simp
    have kq: "(if False then length bytes - 1 else length bytes) = length bytes" by simp
    have nxq: "(if False then (if r = 0 then c - 1 else r - 1) else (w + length bytes) mod c)
       = w + length bytes" using nxe by simp
    have res: "writeBytes buf bytes = Inr (set_writePosition (take indexBytes buf @ take w (data buf)
        @ take (length bytes) bytes @ drop (w + length bytes) (data buf)) (int (w + length bytes)),
        int (length bytes), readPosition buf)"
      by (rule chunk [OF S k0 coll kq _ nxq]) (use A1 f(6) lb ne in simp_all)
    show ?thesis unfolding k f(4) nxe by (rule res)
  next
    case A2
    have k: "k = r - w - 1" unfolding kk using A2 f(6) by simp
    have nxe: "(w + (r - w - 1)) mod c = r - 1" using A2 nf1 f(6) by simp
    have S: "(if int r > int w then int r - int w else int c - int w) = int (r - w)" using A2 by simp
    have k0: "min (length bytes) (r - w) = r - w" using A2 by simp
    have coll: "((w + (r - w)) mod c = r) = True" using A2 f(6) by simp
    have kq: "(if True then r - w - 1 else r - w) = r - w - 1" by simp
    have nxq: "(if True then (if r = 0 then c - 1 else r - 1) else (w + (r - w)) mod c) = r - 1"
      using A2 by simp
    have res: "writeBytes buf bytes = Inr (set_writePosition (take indexBytes buf @ take w (data buf)
        @ take (r - w - 1) bytes @ drop (w + (r - w - 1)) (data buf)) (int (r - 1)),
        int (r - w - 1), readPosition buf)"
      by (rule chunk [OF S k0 coll kq _ nxq]) (use A2 f(6) in simp_all)
    show ?thesis unfolding k f(4) nxe by (rule res)
  next
    case B1
    have k: "k = length bytes" unfolding kk using B1 nf2 by (cases "r = 0") auto
    have nxe: "(w + length bytes) mod c = w + length bytes" using B1 by simp
    have S: "(if int r > int w then int r - int w else int c - int w) = int (c - w)"
      using B1 wc by (simp add: of_nat_diff)
    have k0: "min (length bytes) (c - w) = length bytes" using B1 by simp
    have coll: "((w + length bytes) mod c = r) = False" unfolding nxe using B1 lb by simp
    have kq: "(if False then length bytes - 1 else length bytes) = length bytes" by simp
    have nxq: "(if False then (if r = 0 then c - 1 else r - 1) else (w + length bytes) mod c)
       = w + length bytes" using nxe by simp
    have res: "writeBytes buf bytes = Inr (set_writePosition (take indexBytes buf @ take w (data buf)
        @ take (length bytes) bytes @ drop (w + length bytes) (data buf)) (int (w + length bytes)),
        int (length bytes), readPosition buf)"
      by (rule chunk [OF S k0 coll kq _ nxq]) (use B1 lb ne in simp_all)
    show ?thesis unfolding k f(4) nxe by (rule res)
  next
    case B2a
    have k: "k = c - w - 1" unfolding kk using B2a wc by simp
    have nxe: "(w + (c - w - 1)) mod c = c - 1" using wc nf2 B2a by simp
    have S: "(if int r > int w then int r - int w else int c - int w) = int (c - w)"
      using B2a wc by (simp add: of_nat_diff)
    have k0: "min (length bytes) (c - w) = c - w" using B2a by simp
    have coll: "((w + (c - w)) mod c = r) = True" using B2a wc by simp
    have kq: "(if True then c - w - 1 else c - w) = c - w - 1" by simp
    have nxq: "(if True then (if r = 0 then c - 1 else r - 1) else (w + (c - w)) mod c) = c - 1"
      using B2a by simp
    have res: "writeBytes buf bytes = Inr (set_writePosition (take indexBytes buf @ take w (data buf)
        @ take (c - w - 1) bytes @ drop (w + (c - w - 1)) (data buf)) (int (c - 1)),
        int (c - w - 1), readPosition buf)"
      by (rule chunk [OF S k0 coll kq _ nxq]) (use B2a wc in simp_all)
    show ?thesis unfolding k f(4) nxe by (rule res)
  next
    case B2b
    have k: "k = c - w" unfolding kk using B2b wc by simp
    have nxe: "(w + (c - w)) mod c = 0" using wc by simp
    have S: "(if int r > int w then int r - int w else int c - int w) = int (c - w)"
      using B2b wc by (simp add: of_nat_diff)
    have k0: "min (length bytes) (c - w) = c - w" using B2b by simp
    have coll: "((w + (c - w)) mod c = r) = False" using B2b wc by simp
    have kq: "(if False then c - w - 1 else c - w) = c - w" by simp
    have nxq: "(if False then (if r = 0 then c - 1 else r - 1) else (w + (c - w)) mod c) = 0"
      using nxe by simp
    have res: "writeBytes buf bytes = Inr (set_writePosition (take indexBytes buf @ take w (data buf)
        @ take (c - w) bytes @ drop (w + (c - w)) (data buf)) (int 0),
        int (c - w), readPosition buf)"
      by (rule chunk [OF S k0 coll kq _ nxq]) (use B2b wc in simp_all)
    show ?thesis unfolding k f(4) nxe by (rule res)
  qed
qed


section \<open>One attempt of the consumer\<close>

lemma readBytes_eval:
  assumes inv: "stream_inv buf" 
    and off: "0 \<le> offset" "offset \<le> int (length target)"
  defines "r \<equiv> nat (readPosition buf)" and "w \<equiv> nat (writePosition buf)"
  defines "n \<equiv> min (length target - nat offset) (if r < w then w - r else capacity buf - r)"
  shows "readBytes buf target offset =
    Inr (set_readPosition buf (int ((r + n) mod capacity buf)),
         take (nat offset) target @ take n (drop r (data buf)) @ drop (nat offset + n) target, int n)"
proof -
  from inv obtain r' w' c where f: "readPosition buf = int r'" "writePosition buf = int w'"
    "data_length buf = int c" "capacity buf = c" "length (data buf) = c" "r' < c" "w' < c" "36 \<le> c" "c \<le> 2147483648"
    "length buf = c + 12" by (rule inv_nat)
  have rw: "r' = r" "w' = w" using f(1,2) by (simp_all add: r_def w_def)
  have rp: "readPosition buf = int r" "writePosition buf = int w" using f(1,2) rw by simp_all
  have rc: "r < c" "w < c" using f(6,7) rw by simp_all
  have n1: "n \<le> length target - nat offset" "n \<le> c - r"
    using rc unfolding n_def f(4) by (auto simp: min_def)
  have n_int: "min (int (length target) - offset) (if int r < int w then int w - int r else int c - int r) = int n"
  proof (cases "r < w")
    case True
    then show ?thesis unfolding n_def f(4) using off by (simp add: min_def) linarith
  next
    case False
    then show ?thesis unfolding n_def f(4) using off rc by (simp add: min_def) linarith
  qed
  have sub: "subarray (data buf) (int r) (int r + int n) = take n (drop r (data buf))"
    by (simp add: subarray_mid)
  have ln: "length (take n (drop r (data buf))) = n" using n1(2) f(5) by simp
  have fits: "\<not> (offset < 0 \<or> int (length target) < int n + offset)"
    using off n1(1) by linarith
  have set: "TypedArray_set target (take n (drop r (data buf))) offset
      = Inr (take (nat offset) target @ take n (drop r (data buf)) @ drop (nat offset + n) target)"
    unfolding TypedArray_set_def ln using fits by simp
  have m: "(int r + int n) smod int c = int ((r + n) mod c)"
    using f(8) by (simp add: smod_nonneg zmod_int)
  show ?thesis unfolding readBytes_def Let_def rp f(3) n_int sub set m f(4)
    by simp
qed


section \<open>The attempts in terms of the unread bytes\<close>

lemma unread_nonempty_iff:
  assumes "stream_inv buf"
  shows "unread buf = [] \<longleftrightarrow> readPosition buf = writePosition buf"
proof -
  from assms obtain r w c where f: "readPosition buf = int r" "writePosition buf = int w"
    "data_length buf = int c" "capacity buf = c" "length (data buf) = c" "r < c" "w < c" "36 \<le> c" "c \<le> 2147483648"
    "length buf = c + 12" by (rule inv_nat)
  have "length (unread buf) = (if r \<le> w then w - r else c - r + w)"
    unfolding unread_def f(1,2) using f(5,6,7) by (simp add: length_ring)
  then have "length (unread buf) = 0 \<longleftrightarrow> r = w" using f(6,7) by (auto split: if_splits)
  then show ?thesis unfolding f(1,2) by simp
qed

lemma length_unread:
  assumes "stream_inv buf"
  shows "length (unread buf) < capacity buf"
proof -
  from assms obtain r w c where f: "readPosition buf = int r" "writePosition buf = int w"
    "data_length buf = int c" "capacity buf = c" "length (data buf) = c" "r < c" "w < c" "36 \<le> c" "c \<le> 2147483648"
    "length buf = c + 12" by (rule inv_nat)
  have "length (unread buf) = (if r \<le> w then w - r else c - r + w)"
    unfolding unread_def f(1,2) using f(5,6,7) by (simp add: length_ring)
  then show ?thesis unfolding f(4) using f(6,7) by (auto split: if_splits)
qed

lemma writeBytes_step:
  assumes inv: "stream_inv buf" and nf: "\<not> full buf" and ne: "bytes \<noteq> []"
  obtains buf' k where "writeBytes buf bytes = Inr (buf', int k, readPosition buf)"
    "0 < k" "k \<le> length bytes" "length (unread buf) + k < capacity buf"
    "k = min (length bytes) (min (capacity buf - nat (writePosition buf)) (capacity buf - 1 - length (unread buf)))"
    "stream_inv buf'" "length buf' = length buf" "readPosition buf' = readPosition buf"
    "state buf' = state buf" "unread buf' = unread buf @ take k bytes"
    "writePosition buf' \<noteq> readPosition buf"
proof -
  define w where "w = nat (writePosition buf)"
  define k where "k = min (length bytes) (min (capacity buf - w) (capacity buf - 1 - length (unread buf)))"
  define D where "D = take w (data buf) @ take k bytes @ drop (w + k) (data buf)"
  define buf' where "buf' = set_writePosition (take indexBytes buf @ D) (int ((w + k) mod capacity buf))"
  from inv obtain r w' c where f: "readPosition buf = int r" "writePosition buf = int w'"
    "data_length buf = int c" "capacity buf = c" "length (data buf) = c" "r < c" "w' < c" "36 \<le> c" "c \<le> 2147483648"
    "length buf = c + 12" by (rule inv_nat)
  have w: "w' = w" using f(2) by (simp add: w_def)
  have wp: "writePosition buf = int w" using f(2) w by simp
  have wc: "w < c" using f(7) w by simp
  have wb: "writeBytes buf bytes = Inr (buf', int k, readPosition buf)"
    unfolding buf'_def D_def k_def w_def by (rule writeBytes_nonfull(1) [OF inv nf ne])
  have kpos: "0 < k" unfolding k_def w_def by (rule writeBytes_nonfull(2) [OF inv nf ne])
  have lu: "length (unread buf) < c" using length_unread [OF inv] f(4) by simp
  have k1: "k \<le> length bytes" "k \<le> c - w" "k \<le> c - 1 - length (unread buf)"
    unfolding k_def f(4) by simp_all
  have lk: "length (take k bytes) = k" using k1(1) by simp
  have lD: "length D = c" unfolding D_def using f(5) wc k1(1,2) by simp
  have l12: "12 \<le> length buf" using f(10) by simp
  have l12': "12 \<le> length (take indexBytes buf @ D)" using f(10) by (simp add: indexBytes_def)
  have nx: "(w + k) mod c < c" using f(8) by simp
  have nx32: "ToInt32 (int ((w + k) mod c)) = int ((w + k) mod c)"
    by (rule ToInt32_id) (use nx f(9) in simp_all)
  have a1: "readPosition buf' = readPosition buf"
    unfolding buf'_def accessors_set_writePosition(1) [OF l12'] by (rule accessors_data_region(1) [OF l12])
  have a2: "state buf' = state buf"
    unfolding buf'_def accessors_set_writePosition(3) [OF l12'] by (rule accessors_data_region(3) [OF l12])
  have a3: "data buf' = D"
    unfolding buf'_def accessors_set_writePosition(4) [OF l12'] by (rule accessors_data_region(4) [OF l12])
  have a4: "length buf' = length buf"
    unfolding buf'_def accessors_set_writePosition(5) [OF l12'] accessors_data_region(5) [OF l12] lD f(10) by simp
  have a5: "writePosition buf' = int ((w + k) mod c)"
    unfolding buf'_def accessors_set_writePosition(2) [OF l12'] f(4) by (rule nx32)
  have inv': "stream_inv buf'"
    unfolding stream_inv_def capacity_def data_length_def a1 a3 a4 a5 lD f(1) f(10)
    using f(6,8,9) nx by simp
  have lt: "length (unread buf) + k < capacity buf" unfolding f(4) using k1(3) kpos lu by linarith
  have lt': "length (ring (data buf) r w) + length (take k bytes) < length (data buf)"
    using lt unfolding unread_def f(1) wp lk f(4) f(5) by simp
  have u: "unread buf' = unread buf @ take k bytes"
    using ring_write [of r "data buf" w "take k bytes"] f(5,6) wc k1(2) lt'
    unfolding unread_def a1 a3 a5 f(1) wp D_def lk by simp
  have "unread buf' \<noteq> []" unfolding u using lk kpos by auto
  then have ne': "writePosition buf' \<noteq> readPosition buf"
    using unread_nonempty_iff [OF inv'] a1 by simp
  have ke: "k = min (length bytes) (min (capacity buf - nat (writePosition buf)) (capacity buf - 1 - length (unread buf)))"
    unfolding k_def w_def ..
  show thesis
    by (rule that [OF wb kpos k1(1) lt ke inv' a4 a1 a2 u ne'])
qed

lemma readBytes_step:
  assumes inv: "stream_inv buf" and ne: "readPosition buf \<noteq> writePosition buf"
    and off: "0 \<le> offset" "offset \<le> int (length target)"
  obtains buf' target' n where "readBytes buf target offset = Inr (buf', target', int n)"
    "n \<le> length (unread buf)" "n \<le> length target - nat offset"
    "0 < n \<or> length target = nat offset"
    "stream_inv buf'" "length buf' = length buf" "writePosition buf' = writePosition buf"
    "state buf' = state buf" "data buf' = data buf"
    "unread buf' = drop n (unread buf)"
    "target' = take (nat offset) target @ take n (unread buf) @ drop (nat offset + n) target"
proof -
  define r where "r = nat (readPosition buf)"
  define w where "w = nat (writePosition buf)"
  define n where "n = min (length target - nat offset) (if r < w then w - r else capacity buf - r)"
  define buf' where "buf' = set_readPosition buf (int ((r + n) mod capacity buf))"
  define target' where
    "target' = take (nat offset) target @ take n (drop r (data buf)) @ drop (nat offset + n) target"
  from inv obtain r' w' c where f: "readPosition buf = int r'" "writePosition buf = int w'"
    "data_length buf = int c" "capacity buf = c" "length (data buf) = c" "r' < c" "w' < c" "36 \<le> c" "c \<le> 2147483648"
    "length buf = c + 12" by (rule inv_nat)
  have rw: "r' = r" "w' = w" using f(1,2) by (simp_all add: r_def w_def)
  have rp: "readPosition buf = int r" "writePosition buf = int w" using f(1,2) rw by simp_all
  have rc: "r < c" "w < c" using f(6,7) rw by simp_all
  have rnw: "r \<noteq> w" using ne unfolding rp by simp
  have rb: "readBytes buf target offset = Inr (buf', target', int n)"
    unfolding buf'_def target'_def n_def r_def w_def by (rule readBytes_eval [OF inv off])
  have contig: "n \<le> (if r < w then w - r else length (data buf) - r)"
    unfolding n_def f(4) f(5) by simp
  have lu: "length (unread buf) = (if r \<le> w then w - r else c - r + w)"
    unfolding unread_def rp using f(5) rc by (simp add: length_ring)
  have n1: "n \<le> length (unread buf)" unfolding lu using contig rc rnw unfolding f(5)
    by (auto split: if_splits)
  have n2: "n \<le> length target - nat offset" unfolding n_def by simp
  have n3: "0 < n \<or> length target = nat offset"
    unfolding n_def f(4) using rc rnw off by (auto simp: min_def split: if_splits)
  have l12: "12 \<le> length buf" using f(10) by simp
  have nx: "(r + n) mod c < c" using f(8) by simp
  have nx32: "ToInt32 (int ((r + n) mod c)) = int ((r + n) mod c)"
    by (rule ToInt32_id) (use nx f(9) in simp_all)
  have a1: "writePosition buf' = writePosition buf"
    unfolding buf'_def by (rule accessors_set_readPosition(2) [OF l12])
  have a2: "state buf' = state buf"
    unfolding buf'_def by (rule accessors_set_readPosition(3) [OF l12])
  have a3: "data buf' = data buf"
    unfolding buf'_def by (rule accessors_set_readPosition(4) [OF l12])
  have a4: "length buf' = length buf"
    unfolding buf'_def by (rule accessors_set_readPosition(5) [OF l12])
  have a5: "readPosition buf' = int ((r + n) mod c)"
    unfolding buf'_def accessors_set_readPosition(1) [OF l12] f(4) by (rule nx32)
  have inv': "stream_inv buf'"
    unfolding stream_inv_def capacity_def data_length_def a1 a3 a4 a5 f(5) rp f(10)
    using rc f(8,9) nx by simp
  have rd: "take n (drop r (data buf)) = take n (ring (data buf) r w)"
    "ring (data buf) ((r + n) mod length (data buf)) w = drop n (ring (data buf) r w)"
    using ring_read [of r "data buf" w n] rc rnw contig unfolding f(5) by simp_all
  have u: "unread buf' = drop n (unread buf)"
    unfolding unread_def a1 a3 a5 rp using rd(2) unfolding f(5) by simp
  have t: "target' = take (nat offset) target @ take n (unread buf) @ drop (nat offset + n) target"
    unfolding target'_def unread_def rp rd(1) by simp
  show thesis
    by (rule that [OF rb n1 n2 n3 inv' a4 a1 a2 a3 u t])
qed


section \<open>The asynchronous loops are the synchronous ones\<close>

lemma Atomics_waitAsync_eq: "Atomics_waitAsync = Atomics_wait"
  by (intro ext) (simp add: Atomics_waitAsync_def Atomics_wait_def)

lemma write_async_loop_le:
  "write_async_loop s w buf src t = Some y \<Longrightarrow> writeSync_loop s w buf src t = Some y"
proof (induction rule: write_async_loop.raw_induct [rotated -1, consumes 1, case_names step])
  case (step f s w buf src t y)
  show ?case
    apply (subst writeSync_loop.simps)
    using step by (auto split: if_splits sum.splits prod.splits simp: Atomics_waitAsync_eq)
qed

lemma writeSync_loop_le:
  "writeSync_loop s w buf src t = Some y \<Longrightarrow> write_async_loop s w buf src t = Some y"
proof (induction rule: writeSync_loop.raw_induct [rotated -1, consumes 1, case_names step])
  case (step f s w buf src t y)
  show ?case
    apply (subst write_async_loop.simps)
    using step by (auto split: if_splits sum.splits prod.splits simp: Atomics_waitAsync_eq)
qed

lemma write_async_loop_eq: "write_async_loop s w buf src t = writeSync_loop s w buf src t"
proof (cases "write_async_loop s w buf src t")
  case None
  then show ?thesis using writeSync_loop_le [of s w buf src t] by (cases "writeSync_loop s w buf src t") auto
next
  case (Some y)
  then show ?thesis using write_async_loop_le by fastforce
qed

lemma read_loop_le:
  "read_loop s w buf tg off lim b = Some y \<Longrightarrow> readSync_loop s w buf tg off lim b = Some y"
proof (induction rule: read_loop.raw_induct [rotated -1, consumes 1, case_names step])
  case (step f s w buf tg off lim b y)
  show ?case
    apply (subst readSync_loop.simps)
    using step by (auto split: if_splits sum.splits prod.splits simp: Atomics_waitAsync_eq Let_def)
qed

lemma readSync_loop_le:
  "readSync_loop s w buf tg off lim b = Some y \<Longrightarrow> read_loop s w buf tg off lim b = Some y"
proof (induction rule: readSync_loop.raw_induct [rotated -1, consumes 1, case_names step])
  case (step f s w buf tg off lim b y)
  show ?case
    apply (subst read_loop.simps)
    using step by (auto split: if_splits sum.splits prod.splits simp: Atomics_waitAsync_eq Let_def)
qed

lemma read_loop_eq: "read_loop s w buf tg off lim b = readSync_loop s w buf tg off lim b"
proof (cases "read_loop s w buf tg off lim b")
  case None
  then show ?thesis using readSync_loop_le [of s w buf tg off lim b]
    by (cases "readSync_loop s w buf tg off lim b") auto
next
  case (Some y)
  then show ?thesis using read_loop_le by fastforce
qed


section \<open>A write that returns has written everything\<close>





section \<open>Writes that fit and reads that are covered do not wait\<close>

lemma full_iff:
  assumes "stream_inv buf"
  shows "full buf \<longleftrightarrow> length (unread buf) + 1 = capacity buf"
proof -
  from assms obtain r w c where f: "readPosition buf = int r" "writePosition buf = int w"
    "data_length buf = int c" "capacity buf = c" "length (data buf) = c" "r < c" "w < c" "36 \<le> c" "c \<le> 2147483648"
    "length buf = c + 12" by (rule inv_nat)
  have lu: "length (unread buf) = (if r \<le> w then w - r else c - r + w)"
    unfolding unread_def f(1,2) using f(5,6,7) by (simp add: length_ring)
  have m: "(int w + 1) mod int c = int ((w + 1) mod c)" by (simp add: zmod_int add.commute)
  have "(w + 1) mod c = (if w + 1 = c then 0 else w + 1)" using f(7) by simp
  then have "(w + 1) mod c = r \<longleftrightarrow> (if r \<le> w then w - r else c - r + w) + 1 = c"
    using f(6,7) by (auto split: if_splits)
  then show ?thesis unfolding full_def f(1,2,3,4) lu m by simp
qed

lemma writeSync_loop_fits:
  assumes "stream_inv buf" "t \<le> length source"
    "length (unread buf) + (length source - t) < capacity buf"
  shows "\<exists>buf'. writeSync_loop park w buf source (int t) = Some (Inr (w, buf', int (length source)))
      \<and> stream_inv buf' \<and> length buf' = length buf \<and> readPosition buf' = readPosition buf
      \<and> state buf' = state buf \<and> unread buf' = unread buf @ drop t source"
  using assms
proof (induction "length source - t" arbitrary: buf t rule: less_induct)
  case less
  show ?case
  proof (cases "t = length source")
    case True
    then show ?thesis using less.prems(1)
      by (subst writeSync_loop.simps) simp
  next
    case False
    then have tl: "t < length source" using less.prems(2) by simp
    let ?bytes = "subarray source (int t) (int (length source))"
    have bytes: "?bytes = drop t source" by (simp add: subarray_drop)
    have ne: "?bytes \<noteq> []" unfolding bytes using tl by simp
    have nf: "\<not> full buf" unfolding full_iff [OF less.prems(1)] using less.prems(3) tl by simp
    from writeBytes_step [OF less.prems(1) nf ne] obtain buf1 k where
      s: "writeBytes buf ?bytes = Inr (buf1, int k, readPosition buf)"
        "0 < k" "k \<le> length ?bytes" "length (unread buf) + k < capacity buf"
        "stream_inv buf1" "length buf1 = length buf" "readPosition buf1 = readPosition buf"
        "state buf1 = state buf" "unread buf1 = unread buf @ take k ?bytes"
      by blast
    have kl: "t + k \<le> length source" using s(3) tl unfolding bytes by simp
    have cap: "capacity buf1 = capacity buf" using s(6) by (simp add: capacity_def data_def)
    have fit: "length (unread buf1) + (length source - (t + k)) < capacity buf1"
      unfolding s(9) cap bytes using less.prems(3) kl s(3) by (simp add: bytes)
    have dec: "length source - (t + k) < length source - t" using tl s(2) by simp
    from less.hyps [OF dec s(5) kl fit]
    obtain buf' where r: "writeSync_loop park w buf1 source (int (t + k)) = Some (Inr (w, buf', int (length source)))"
      "stream_inv buf'" "length buf' = length buf1" "readPosition buf' = readPosition buf1"
      "state buf' = state buf1" "unread buf' = unread buf1 @ drop (t + k) source"
      by auto
    have step: "writeSync_loop park w buf source (int t) = writeSync_loop park w buf1 source (int (t + k))"
      by (subst writeSync_loop.simps) (use tl s(1,2) in simp)
    have cat: "take k (drop t source) @ drop (t + k) source = drop t source"
      by (metis append_take_drop_id drop_drop add.commute)
    show ?thesis
      apply (rule exI [of _ buf'])
      unfolding step using r s(6,7,8) cat unfolding s(9) bytes by simp
  qed
qed

lemma readSync_loop_exact:
  assumes "stream_inv buf" "b \<le> l" "ofs + l = length target" "l - b \<le> length (unread buf)"
  shows "\<exists>buf'. readSync_loop park w buf target (int ofs) (int l) (int b)
        = Some (Inr (w, buf', take (ofs + b) target @ take (l - b) (unread buf), int l))
      \<and> stream_inv buf' \<and> length buf' = length buf \<and> writePosition buf' = writePosition buf
      \<and> state buf' = state buf \<and> data buf' = data buf \<and> unread buf' = drop (l - b) (unread buf)"
  using assms
proof (induction "l - b" arbitrary: buf b target rule: less_induct)
  case less
  show ?case
  proof (cases "b = l")
    case True
    have "take (ofs + l) target = target" using less.prems(3) by simp
    then show ?thesis using True less.prems(1)
      by (subst readSync_loop.simps) simp
  next
    case False
    then have bl: "b < l" using less.prems(2) by simp
    have "unread buf \<noteq> []" using less.prems(4) bl by auto
    then have ne: "readPosition buf \<noteq> writePosition buf"
      using unread_nonempty_iff [OF less.prems(1)] by simp
    have off: "0 \<le> int ofs + int b" "int ofs + int b \<le> int (length target)"
      using less.prems(2,3) by simp_all
    have no: "nat (int ofs + int b) = ofs + b" by simp
    from readBytes_step [OF less.prems(1) ne off] obtain buf1 target1 n where
      s: "readBytes buf target (int ofs + int b) = Inr (buf1, target1, int n)"
        "n \<le> length (unread buf)" "n \<le> length target - (ofs + b)"
        "0 < n \<or> length target = ofs + b"
        "stream_inv buf1" "length buf1 = length buf" "writePosition buf1 = writePosition buf"
        "state buf1 = state buf" "data buf1 = data buf"
        "unread buf1 = drop n (unread buf)"
        "target1 = take (ofs + b) target @ take n (unread buf) @ drop (ofs + b + n) target"
      unfolding no by blast
    have npos: "0 < n" using s(4) bl less.prems(3) by auto
    have nle: "b + n \<le> l" using s(3) less.prems(2,3) by linarith
    have dec: "l - (b + n) < l - b" using npos bl by simp
    have lt1: "length target1 = length target" unfolding s(11) using s(2,3) less.prems(2,3) by simp
    have tl: "ofs + l = length target1" using less.prems(3) lt1 by simp
    have en: "l - (b + n) \<le> length (unread buf1)" unfolding s(10) using less.prems(4) by simp
    from less.hyps [OF dec s(5) nle tl en]
    obtain buf' where r: "readSync_loop park w buf1 target1 (int ofs) (int l) (int (b + n))
        = Some (Inr (w, buf', take (ofs + (b + n)) target1 @ take (l - (b + n)) (unread buf1), int l))"
      "stream_inv buf'" "length buf' = length buf1" "writePosition buf' = writePosition buf1"
      "state buf' = state buf1" "data buf' = data buf1" "unread buf' = drop (l - (b + n)) (unread buf1)"
      by auto
    have step: "readSync_loop park w buf target (int ofs) (int l) (int b)
        = readSync_loop park w buf1 target1 (int ofs) (int l) (int (b + n))"
      by (subst readSync_loop.simps) (use bl ne s(1) in \<open>simp add: Let_def\<close>)
    have t1: "take (ofs + (b + n)) target1 = take (ofs + b) target @ take n (unread buf)"
      unfolding s(11) using s(2) less.prems(2,3) by simp
    have t2: "take n (unread buf) @ take (l - (b + n)) (drop n (unread buf)) = take (l - b) (unread buf)"
      using nle take_add [of n "l - (b + n)" "unread buf"] by simp
    have t3: "drop (l - (b + n)) (drop n (unread buf)) = drop (l - b) (unread buf)"
      using nle by simp
    show ?thesis
      apply (rule exI [of _ buf'])
      unfolding step r(1) t1 s(10) using r(2-7) s(6-9) t2 t3 unfolding s(10) by simp
  qed
qed

lemma accessors_Atomics_or_state:
  assumes "12 \<le> length buf"
  shows "readPosition (Atomics_or buf 2 v) = readPosition buf"
    "writePosition (Atomics_or buf 2 v) = writePosition buf"
    "state (Atomics_or buf 2 v) = ToInt32 (state buf OR v)"
    "data (Atomics_or buf 2 v) = data buf"
    "length (Atomics_or buf 2 v) = length buf"
  using assms
  by (simp_all add: readPosition_def writePosition_def state_def Atomics_or_def
      Atomics_load_store_other Atomics_load_store_same length_Atomics_store data_Atomics_store)

lemma stream_inv_Atomics_or_state:
  assumes "stream_inv buf"
  shows "stream_inv (Atomics_or buf 2 v)" "unread (Atomics_or buf 2 v) = unread buf"
proof -
  have l: "12 \<le> length buf" using assms by (simp add: stream_inv_def)
  show "stream_inv (Atomics_or buf 2 v)"
    using assms unfolding stream_inv_def capacity_def data_length_def
      accessors_Atomics_or_state [OF l] .
  show "unread (Atomics_or buf 2 v) = unread buf"
    unfolding unread_def accessors_Atomics_or_state [OF l] ..
qed

lemma readSync_loop_drain:
  assumes "stream_inv buf" "closed buf" "ofs + b + length (unread buf) \<le> length target"
    "b + length (unread buf) < l"
  shows "\<exists>buf'. readSync_loop park w buf target (int ofs) (int l) (int b)
        = Some (Inr (w, setEndOfStream buf',
            take (ofs + b) target @ unread buf @ drop (ofs + b + length (unread buf)) target,
            int (b + length (unread buf))))
      \<and> stream_inv buf' \<and> length buf' = length buf \<and> writePosition buf' = writePosition buf
      \<and> state buf' = state buf \<and> data buf' = data buf \<and> unread buf' = []"
  using assms
proof (induction "length (unread buf)" arbitrary: buf b target rule: less_induct)
  case less
  have bl: "b < l" using less.prems(4) by simp
  show ?case
  proof (cases "unread buf = []")
    case True
    then have e: "readPosition buf = writePosition buf"
      using unread_nonempty_iff [OF less.prems(1)] by simp
    have "readSync_loop park w buf target (int ofs) (int l) (int b)
        = Some (Inr (w, setEndOfStream buf, target, int b))"
      by (subst readSync_loop.simps) (use bl e less.prems(2) in \<open>simp add: Let_def\<close>)
    then show ?thesis using True less.prems(1) by (intro exI [of _ buf]) simp
  next
    case False
    then have ne: "readPosition buf \<noteq> writePosition buf"
      using unread_nonempty_iff [OF less.prems(1)] by simp
    have off: "0 \<le> int ofs + int b" "int ofs + int b \<le> int (length target)"
      using less.prems(3) by simp_all
    have no: "nat (int ofs + int b) = ofs + b" by simp
    from readBytes_step [OF less.prems(1) ne off] obtain buf1 target1 n where
      s: "readBytes buf target (int ofs + int b) = Inr (buf1, target1, int n)"
        "n \<le> length (unread buf)" "n \<le> length target - (ofs + b)"
        "0 < n \<or> length target = ofs + b"
        "stream_inv buf1" "length buf1 = length buf" "writePosition buf1 = writePosition buf"
        "state buf1 = state buf" "data buf1 = data buf"
        "unread buf1 = drop n (unread buf)"
        "target1 = take (ofs + b) target @ take n (unread buf) @ drop (ofs + b + n) target"
      unfolding no by blast
    have lpos: "0 < length (unread buf)" using False by simp
    have npos: "0 < n" using s(4) lpos less.prems(3) by auto
    have dec: "length (unread buf1) < length (unread buf)" unfolding s(10) using npos lpos by simp
    have cl: "closed buf1" using less.prems(2) s(8) by (simp add: closed_def state_def)
    have lt1: "length target1 = length target" unfolding s(11) using s(2,3) less.prems(3) by simp
    have lu1: "length (unread buf1) = length (unread buf) - n" unfolding s(10) by simp
    have p3: "ofs + (b + n) + length (unread buf1) \<le> length target1"
      unfolding lt1 lu1 using less.prems(3) s(2) by simp
    have p4: "b + n + length (unread buf1) < l" unfolding lu1 using less.prems(4) s(2) by simp
    from less.hyps [OF dec s(5) cl p3 p4]
    obtain buf' where r: "readSync_loop park w buf1 target1 (int ofs) (int l) (int (b + n))
        = Some (Inr (w, setEndOfStream buf',
            take (ofs + (b + n)) target1 @ unread buf1 @ drop (ofs + (b + n) + length (unread buf1)) target1,
            int (b + n + length (unread buf1))))"
      "stream_inv buf'" "length buf' = length buf1" "writePosition buf' = writePosition buf1"
      "state buf' = state buf1" "data buf' = data buf1" "unread buf' = []"
      by auto
    have step: "readSync_loop park w buf target (int ofs) (int l) (int b)
        = readSync_loop park w buf1 target1 (int ofs) (int l) (int (b + n))"
      by (subst readSync_loop.simps) (use bl ne s(1) in \<open>simp add: Let_def\<close>)
    have t1: "take (ofs + (b + n)) target1 = take (ofs + b) target @ take n (unread buf)"
      unfolding s(11) using s(2) less.prems(3) by simp
    have t2: "drop (ofs + (b + n) + length (unread buf1)) target1
        = drop (ofs + b + length (unread buf)) target"
      unfolding lu1 unfolding s(11) using s(2) less.prems(3) by (simp add: add.commute)
    have t3: "b + n + length (unread buf1) = b + length (unread buf)"
      unfolding lu1 using s(2) by simp
    have t4: "take n (unread buf) @ unread buf1 = unread buf" unfolding s(10) by simp
    show ?thesis
      apply (rule exI [of _ buf'])
      unfolding step r(1) t1 t2 t3 using t4 r(2-7) s(6-9) by simp
  qed
qed


section \<open>An attempt with nothing to write\<close>

lemma writeBytes_empty:
  assumes inv: "stream_inv buf" and nf: "\<not> full buf"
  shows "\<exists>buf' n. writeBytes buf [] = Inr (buf', n, readPosition buf)
     \<and> writePosition buf' \<noteq> readPosition buf \<and> readPosition buf' = readPosition buf
     \<and> stream_inv buf' \<and> length buf' = length buf"
proof -
  from inv obtain r w c where f: "readPosition buf = int r" "writePosition buf = int w"
    "data_length buf = int c" "capacity buf = c" "length (data buf) = c" "r < c" "w < c" "36 \<le> c" "c \<le> 2147483648"
    "length buf = c + 12" by (rule inv_nat)
  have c0: "0 < int c" using f(8) by simp
  have nf': "(int w + 1) smod int c \<noteq> int r"
    using nf c0 unfolding full_def f(1,2,3) by (simp add: smod_nonneg)
  define S where "S = (if int r > int w then int r - int w else int c - int w)"
  have Spos: "0 < S" unfolding S_def using f(6,7) by simp
  have k0: "min (int (length ([]::byte list))) S = 0" using Spos by simp
  have nx0: "(int w + 0) smod int c = int w" using f(7) c0 by (simp add: smod_nonneg)
  define nx where "nx = (if int w = int r then (if int w - 1 < 0 then int w - 1 + int c else int w - 1) else int w)"
  define n where "n = (if int w = int r then (0::int) - 1 else 0)"
  have sub: "subarray ([]::byte list) 0 n = []" by (simp add: subarray_def)
  have ds: "data_set buf [] (int w) = Inr (take indexBytes buf @ take w (data buf) @ [] @ drop (w + length ([]::byte list)) (data buf))"
    using data_set_ok [of "int w" "[]" buf] f(3,7) by simp
  have D: "take w (data buf) @ [] @ drop (w + length ([]::byte list)) (data buf) = data buf" by simp
  define buf' where "buf' = set_writePosition (take indexBytes buf @ data buf) nx"
  have wb: "writeBytes buf [] = Inr (buf', n, readPosition buf)"
    unfolding writeBytes_int [OF f(1) f(2) f(3) nf' S_def [symmetric] k0 nx0]
      nx_def [symmetric] n_def [symmetric] sub ds D buf'_def f(1) by simp
  have nxr: "0 \<le> nx" "nx < int c" "nx \<noteq> int r"
    unfolding nx_def using f(6,7,8) by (auto split: if_splits)
  have nx32: "ToInt32 nx = nx" by (rule ToInt32_id) (use nxr f(9) in simp_all)
  have l12: "12 \<le> length buf" using f(10) by simp
  have l12': "12 \<le> length (take indexBytes buf @ data buf)" using f(10) by (simp add: indexBytes_def)
  have a1: "readPosition buf' = readPosition buf"
    unfolding buf'_def accessors_set_writePosition(1) [OF l12'] by (rule accessors_data_region(1) [OF l12])
  have a3: "data buf' = data buf"
    unfolding buf'_def accessors_set_writePosition(4) [OF l12'] by (rule accessors_data_region(4) [OF l12])
  have a4: "length buf' = length buf"
    unfolding buf'_def accessors_set_writePosition(5) [OF l12'] accessors_data_region(5) [OF l12] f(5) f(10) by simp
  have a5: "writePosition buf' = nx"
    unfolding buf'_def accessors_set_writePosition(2) [OF l12'] by (rule nx32)
  have inv': "stream_inv buf'"
    unfolding stream_inv_def capacity_def data_length_def a1 a3 a4 a5 f(5) f(1) f(10)
    using f(6,8,9) nxr by simp
  show ?thesis
    using wb a1 a4 a5 nxr(3) inv' f(1) by (intro exI [of _ buf'] exI [of _ n]) simp
qed

lemma capacity_ge:
  assumes "stream_inv buf"
  shows "36 \<le> capacity buf"
  by (rule inv_nat [OF assms]) simp


section \<open>Sequences of calls\<close>

lemma do_write_fits:
  assumes "stream_inv buf" "length (unread buf) + length (source_of c) < capacity buf"
  shows "\<exists>buf'. do_write cp w buf c = Some (Inr (w, buf', int (length (source_of c))))
      \<and> stream_inv buf' \<and> length buf' = length buf \<and> readPosition buf' = readPosition buf
      \<and> state buf' = state buf \<and> unread buf' = unread buf @ source_of c"
  using writeSync_loop_fits [of buf 0 "source_of c" cp w] assms
  by (cases c) (simp_all add: writeSync_def write_async_def write_async_loop_eq)

lemma writes_fit:
  assumes "stream_inv buf" "length (unread buf) + length (concat (map source_of ws)) < capacity buf"
  shows "\<exists>buf'. writes cp w buf ws = Some (Inr (w, buf', map (\<lambda>c. int (length (source_of c))) ws))
      \<and> stream_inv buf' \<and> length buf' = length buf \<and> readPosition buf' = readPosition buf
      \<and> state buf' = state buf \<and> unread buf' = unread buf @ concat (map source_of ws)"
  using assms
proof (induction ws arbitrary: buf)
  case Nil
  then show ?case by simp
next
  case (Cons c cs)
  have fit: "length (unread buf) + length (source_of c) < capacity buf" using Cons.prems(2) by simp
  from do_write_fits [OF Cons.prems(1) fit, of cp w] obtain buf1 where
    s: "do_write cp w buf c = Some (Inr (w, buf1, int (length (source_of c))))"
      "stream_inv buf1" "length buf1 = length buf" "readPosition buf1 = readPosition buf"
      "state buf1 = state buf" "unread buf1 = unread buf @ source_of c"
    by blast
  have cap: "capacity buf1 = capacity buf" using s(3) by (simp add: capacity_def data_def)
  have fit': "length (unread buf1) + length (concat (map source_of cs)) < capacity buf1"
    unfolding s(6) cap using Cons.prems(2) by simp
  from Cons.IH [OF s(2) fit'] obtain buf' where
    r: "writes cp w buf1 cs = Some (Inr (w, buf', map (\<lambda>c. int (length (source_of c))) cs))"
      "stream_inv buf'" "length buf' = length buf1" "readPosition buf' = readPosition buf1"
      "state buf' = state buf1" "unread buf' = unread buf1 @ concat (map source_of cs)"
    by blast
  show ?case using s r by (intro exI [of _ buf']) simp
qed

lemma do_read_exact:
  assumes "stream_inv buf" "\<not> endOfStream buf" "0 \<le> offset_of c" "0 \<le> limit_of c"
    "offset_of c + limit_of c = int (length (target_of c))"
    "nat (limit_of c) \<le> length (unread buf)"
  shows "\<exists>buf' target'. do_read cp w buf c = Some (Inr (w, buf', target', limit_of c))
      \<and> delivered c (target', limit_of c) = take (nat (limit_of c)) (unread buf)
      \<and> stream_inv buf' \<and> length buf' = length buf \<and> writePosition buf' = writePosition buf
      \<and> state buf' = state buf \<and> unread buf' = drop (nat (limit_of c)) (unread buf)"
proof -
  define ofs where "ofs = nat (offset_of c)"
  define l where "l = nat (limit_of c)"
  have e: "offset_of c = int ofs" "limit_of c = int l" using assms(3,4) by (simp_all add: ofs_def l_def)
  have tl: "ofs + l = length (target_of c)" using assms(5) unfolding e by linarith
  have le: "l - 0 \<le> length (unread buf)" using assms(6) by (simp add: l_def)
  from readSync_loop_exact [OF assms(1) _ tl le, of cp w] obtain buf' where
    r: "readSync_loop cp w buf (target_of c) (int ofs) (int l) (int 0)
        = Some (Inr (w, buf', take (ofs + 0) (target_of c) @ take (l - 0) (unread buf), int l))"
      "stream_inv buf'" "length buf' = length buf" "writePosition buf' = writePosition buf"
      "state buf' = state buf" "unread buf' = drop (l - 0) (unread buf)"
    by auto
  have d: "delivered c (take ofs (target_of c) @ take l (unread buf), int l) = take l (unread buf)"
    unfolding delivered_def e using tl le by simp
  have "do_read cp w buf c = readSync_loop cp w buf (target_of c) (int ofs) (int l) 0"
    using assms(2) e by (cases c) (simp_all add: readSync_def read_def read_loop_eq)
  then show ?thesis using r d unfolding e
    by (intro exI [of _ buf'] exI [of _ "take ofs (target_of c) @ take l (unread buf)"]) (simp add: l_def)
qed

lemma reads_exact:
  assumes "stream_inv buf" "\<not> endOfStream buf"
    "\<forall>c \<in> set rs. 0 \<le> offset_of c \<and> 0 \<le> limit_of c
        \<and> offset_of c + limit_of c = int (length (target_of c))"
    "(\<Sum>c\<leftarrow>rs. nat (limit_of c)) \<le> length (unread buf)"
  shows "\<exists>buf' outs. reads cp w buf rs = Some (Inr (w, buf', outs))
      \<and> map snd outs = map limit_of rs
      \<and> concat (map2 delivered rs outs) = take (\<Sum>c\<leftarrow>rs. nat (limit_of c)) (unread buf)
      \<and> unread buf' = drop (\<Sum>c\<leftarrow>rs. nat (limit_of c)) (unread buf)"
  using assms
proof (induction rs arbitrary: buf)
  case Nil
  then show ?case by simp
next
  case (Cons c cs)
  let ?l = "nat (limit_of c)"
  let ?m = "\<Sum>c\<leftarrow>cs. nat (limit_of c)"
  have c: "0 \<le> offset_of c" "0 \<le> limit_of c" "offset_of c + limit_of c = int (length (target_of c))"
    using Cons.prems(3) by simp_all
  have le: "?l \<le> length (unread buf)" using Cons.prems(4) by simp
  from do_read_exact [OF Cons.prems(1,2) c le, of cp w] obtain buf1 target1 where
    s: "do_read cp w buf c = Some (Inr (w, buf1, target1, limit_of c))"
      "delivered c (target1, limit_of c) = take ?l (unread buf)"
      "stream_inv buf1" "state buf1 = state buf" "unread buf1 = drop ?l (unread buf)"
    by blast
  have eos: "\<not> endOfStream buf1" using Cons.prems(2) s(4) by (simp add: endOfStream_def state_def)
  have wf: "\<forall>c \<in> set cs. 0 \<le> offset_of c \<and> 0 \<le> limit_of c
        \<and> offset_of c + limit_of c = int (length (target_of c))" using Cons.prems(3) by simp
  have le': "?m \<le> length (unread buf1)" unfolding s(5) using Cons.prems(4) by simp
  from Cons.IH [OF s(3) eos wf le'] obtain buf' outs where
    r: "reads cp w buf1 cs = Some (Inr (w, buf', outs))" "map snd outs = map limit_of cs"
      "concat (map2 delivered cs outs) = take ?m (unread buf1)"
      "unread buf' = drop ?m (unread buf1)"
    by blast
  have t: "take ?l (unread buf) @ take ?m (drop ?l (unread buf)) = take (?l + ?m) (unread buf)"
    by (simp add: take_add)
  show ?case using s(1,2) r t unfolding s(5)
    by (intro exI [of _ buf'] exI [of _ "(target1, limit_of c) # outs"]) (simp add: add.commute)
qed


section \<open>Reads that return deliver a prefix of the unread bytes\<close>

lemma readBytes_throws:
  assumes "int (length target) < offset"
  shows "readBytes buf target offset = Inl RangeError"
  using assms unfolding readBytes_def Let_def TypedArray_set_def by simp

lemma readSync_loop_prefix:
  assumes "readSync_loop idle v buf target (int ofs) limit (int b) = Some (Inr (v', buf', target', n))"
    and "stream_inv buf"
  shows "\<exists>k. n = int (b + k) \<and> k \<le> length (unread buf) \<and> stream_inv buf'
      \<and> unread buf' = drop k (unread buf) \<and> length target' = length target
      \<and> take (ofs + b) target' = take (ofs + b) target
      \<and> take k (drop (ofs + b) target') = take k (unread buf)"
proof -
  have "readSync_loop park v buf target offset limit bb = Some y \<Longrightarrow>
    (\<forall>b v' buf' target' n. park = idle \<longrightarrow> offset = int ofs \<longrightarrow> bb = int b \<longrightarrow> stream_inv buf
       \<longrightarrow> y = Inr (v', buf', target', n) \<longrightarrow>
      (\<exists>k. n = int (b + k) \<and> k \<le> length (unread buf) \<and> stream_inv buf'
      \<and> unread buf' = drop k (unread buf) \<and> length target' = length target
      \<and> take (ofs + b) target' = take (ofs + b) target
      \<and> take k (drop (ofs + b) target') = take k (unread buf)))"
    for park offset bb y
  proof (induction rule: readSync_loop.raw_induct [rotated -1, consumes 1, case_names step])
    case (step f park v buf target offset limit bb y)
    show ?case
    proof (intro impI allI)
      fix b v' buf' target' n
      assume p: "park = idle" and o: "offset = int ofs" and bb: "bb = int b"
        and inv: "stream_inv buf" and y: "y = Inr (v', buf', target', n)"
      let ?goal = "\<exists>k. n = int (b + k) \<and> k \<le> length (unread buf) \<and> stream_inv buf'
        \<and> unread buf' = drop k (unread buf) \<and> length target' = length target
        \<and> take (ofs + b) target' = take (ofs + b) target
        \<and> take k (drop (ofs + b) target') = take k (unread buf)"
      show ?goal
      proof (cases "bb < limit")
        case False
        then have "buf' = buf" "target' = target" "n = int b" using step(2) y bb by simp_all
        then show ?thesis using inv by (intro exI [of _ 0]) simp
      next
        case True
        show ?thesis
        proof (cases "readPosition buf = writePosition buf")
          case e: True
          show ?thesis
          proof (cases "closed buf")
            case c: True
            then have r: "buf' = setEndOfStream buf" "target' = target" "n = int b"
              using step(2) True e y bb by (simp_all add: Let_def)
            show ?thesis unfolding r setEndOfStream_def
              using stream_inv_Atomics_or_state [OF inv, of 2] by (intro exI [of _ 0]) simp
          next
            case c: False
            have "Atomics_wait park v buf 1 (writePosition buf) = (v, buf)"
              unfolding p by (simp add: Atomics_wait_def idle_def)
            then have "f park v buf target offset limit bb = Some y"
              using step(2) True e c by (simp add: Let_def)
            from step(1) [OF this] p o bb inv y show ?thesis by blast
          qed
        next
          case ne: False
          show ?thesis
          proof (cases "ofs + b \<le> length target")
            case False
            then have "readBytes buf target (offset + bb) = Inl RangeError"
              unfolding o bb by (intro readBytes_throws) simp
            then show ?thesis using step(2) True ne y by (simp add: Let_def)
          next
            case room: True
            have off: "0 \<le> int ofs + int b" "int ofs + int b \<le> int (length target)"
              using room by simp_all
            have no: "nat (int ofs + int b) = ofs + b" by simp
            from readBytes_step [OF inv ne off] obtain buf1 target1 n1 where
              s: "readBytes buf target (int ofs + int b) = Inr (buf1, target1, int n1)"
                "n1 \<le> length (unread buf)" "n1 \<le> length target - (ofs + b)"
                "stream_inv buf1" "unread buf1 = drop n1 (unread buf)"
                "target1 = take (ofs + b) target @ take n1 (unread buf) @ drop (ofs + b + n1) target"
              unfolding no by blast
            have "f park v buf1 target1 offset limit (int (b + n1)) = Some y"
              using step(2) True ne s(1) unfolding o bb by (simp add: Let_def)
            from step(1) [OF this] p o inv y s(4)
            obtain k where
              r: "n = int (b + n1 + k)" "k \<le> length (unread buf1)" "stream_inv buf'"
                "unread buf' = drop k (unread buf1)" "length target' = length target1"
                "take (ofs + (b + n1)) target' = take (ofs + (b + n1)) target1"
                "take k (drop (ofs + (b + n1)) target') = take k (unread buf1)"
              by blast
            have lt1: "length target1 = length target" unfolding s(6) using s(2,3) room by simp
            have t1: "take (ofs + (b + n1)) target1 = take (ofs + b) target @ take n1 (unread buf)"
              unfolding s(6) using s(2) room by simp
            have pre: "take (ofs + b) target' = take (ofs + b) target"
            proof -
              have "take (ofs + b) target' = take (ofs + b) (take (ofs + (b + n1)) target')"
                by (simp add: min_def)
              also have "\<dots> = take (ofs + b) (take (ofs + b) target @ take n1 (unread buf))"
                unfolding r(6) t1 ..
              also have "\<dots> = take (ofs + b) target" using room by simp
              finally show ?thesis .
            qed
            have mid: "take n1 (drop (ofs + b) target') = take n1 (unread buf)"
            proof -
              have "take n1 (drop (ofs + b) target') = drop (ofs + b) (take (ofs + (b + n1)) target')"
                by (simp add: drop_take add.commute add.left_commute)
              also have "\<dots> = drop (ofs + b) (take (ofs + b) target @ take n1 (unread buf))"
                unfolding r(6) t1 ..
              also have "\<dots> = take n1 (unread buf)" using room by simp
              finally show ?thesis .
            qed
            have del: "take (n1 + k) (drop (ofs + b) target') = take (n1 + k) (unread buf)"
            proof -
              have "take (n1 + k) (drop (ofs + b) target')
                  = take n1 (drop (ofs + b) target') @ take k (drop n1 (drop (ofs + b) target'))"
                by (rule take_add)
              also have "drop n1 (drop (ofs + b) target') = drop (ofs + (b + n1)) target'"
                by (simp add: add.commute add.left_commute)
              also have "take n1 (drop (ofs + b) target') @ take k (drop (ofs + (b + n1)) target')
                  = take n1 (unread buf) @ take k (drop n1 (unread buf))"
                unfolding mid r(7) s(5) ..
              also have "\<dots> = take (n1 + k) (unread buf)" by (simp add: take_add)
              finally show ?thesis .
            qed
            have k2: "n1 + k \<le> length (unread buf)" using r(2) s(2) unfolding s(5) by simp
            have u: "unread buf' = drop (n1 + k) (unread buf)"
              unfolding r(4) s(5) by (simp add: add.commute)
            show ?thesis
              using r(1,3) k2 u r(5) lt1 pre del
              by (intro exI [of _ "n1 + k"]) (simp add: add.assoc)
          qed
        qed
      qed
    qed
  qed
  from this [OF assms(1)] assms(2) show ?thesis by blast
qed


lemma do_read_prefix:
  assumes "do_read idle v buf c = Some (Inr (v', buf', target', n))" "stream_inv buf"
    "0 \<le> offset_of c"
  shows "stream_inv buf' \<and> nat n \<le> length (unread buf)
    \<and> unread buf' = drop (nat n) (unread buf)
    \<and> delivered c (target', n) = take (nat n) (unread buf)"
proof -
  define ofs where "ofs = nat (offset_of c)"
  have o: "offset_of c = int ofs" using assms(3) by (simp add: ofs_def)
  have rd: "do_read idle v buf c = readSync idle v buf (target_of c) (int ofs) (limit_of c)"
    using o by (cases c) (simp_all add: readSync_def read_def read_loop_eq)
  show ?thesis
  proof (cases "endOfStream buf")
    case True
    then have "buf' = buf" "target' = target_of c" "n = - 1"
      using assms(1) unfolding rd by (simp_all add: readSync_def)
    then show ?thesis using assms(2) by (simp add: delivered_def)
  next
    case False
    then have "readSync_loop idle v buf (target_of c) (int ofs) (limit_of c) (int 0)
        = Some (Inr (v', buf', target', n))"
      using assms(1) unfolding rd by (simp add: readSync_def)
    from readSync_loop_prefix [OF this assms(2)] obtain k where
      r: "n = int (0 + k)" "k \<le> length (unread buf)" "stream_inv buf'"
        "unread buf' = drop k (unread buf)"
        "take k (drop (ofs + 0) target') = take k (unread buf)"
      by blast
    show ?thesis using r unfolding delivered_def o by simp
  qed
qed

lemma reads_prefix:
  assumes "reads idle v buf rs = Some (Inr (v', buf', outs))" "stream_inv buf"
    "\<forall>c \<in> set rs. 0 \<le> offset_of c"
  shows "concat (map2 delivered rs outs) = take (\<Sum>out\<leftarrow>outs. nat (snd out)) (unread buf)
    \<and> (\<Sum>out\<leftarrow>outs. nat (snd out)) \<le> length (unread buf)"
  using assms
proof (induction rs arbitrary: v buf outs)
  case Nil
  then show ?case by simp
next
  case (Cons c cs)
  from Cons.prems(1) obtain v1 buf1 target1 n1 outs1 where
    s: "do_read idle v buf c = Some (Inr (v1, buf1, target1, n1))"
      "reads idle v1 buf1 cs = Some (Inr (v', buf', outs1))" "outs = (target1, n1) # outs1"
    by (auto split: option.splits sum.splits prod.splits)
  have c0: "0 \<le> offset_of c" using Cons.prems(3) by simp
  from do_read_prefix [OF s(1) Cons.prems(2) c0] have
    d: "stream_inv buf1" "nat n1 \<le> length (unread buf)"
      "unread buf1 = drop (nat n1) (unread buf)"
      "delivered c (target1, n1) = take (nat n1) (unread buf)"
    by simp_all
  have cs0: "\<forall>c \<in> set cs. 0 \<le> offset_of c" using Cons.prems(3) by simp
  from Cons.IH [OF s(2) d(1) cs0] have
    r: "concat (map2 delivered cs outs1) = take (\<Sum>out\<leftarrow>outs1. nat (snd out)) (unread buf1)"
      "(\<Sum>out\<leftarrow>outs1. nat (snd out)) \<le> length (unread buf1)"
    by simp_all
  show ?case unfolding s(3) using d(2,4) r unfolding d(3) by (simp add: take_add)
qed


section \<open>Closing and the end-of-stream latch\<close>

lemma readBytes_frame:
  assumes "readBytes buf target offset = Inr (buf', target', n)" "12 \<le> length buf"
  shows "state buf' = state buf" "writePosition buf' = writePosition buf" "length buf' = length buf"
proof -
  obtain pos where "buf' = set_readPosition buf pos"
    using assms(1) unfolding readBytes_def Let_def by (auto split: sum.splits)
  then show "state buf' = state buf" "writePosition buf' = writePosition buf" "length buf' = length buf"
    using accessors_set_readPosition [OF assms(2)] by simp_all
qed

lemma latch_only_when_closed_and_empty:
  assumes "readSync_loop idle w buf target offset limit b = Some (Inr (w', buf', target', n))"
    and "12 \<le> length buf"
  shows "state buf' = state buf
     \<or> (closed buf \<and> readPosition buf' = writePosition buf' \<and> state buf' = ToInt32 (state buf OR 2))"
proof -
  have "readSync_loop park w buf target offset limit b = Some y \<Longrightarrow>
    park = idle \<longrightarrow> 12 \<le> length buf \<longrightarrow> (\<forall>w' buf' target' n. y = Inr (w', buf', target', n) \<longrightarrow>
      state buf' = state buf
      \<or> (closed buf \<and> readPosition buf' = writePosition buf' \<and> state buf' = ToInt32 (state buf OR 2)))"
    for park y
  proof (induction rule: readSync_loop.raw_induct [rotated -1, consumes 1, case_names step])
    case (step f park w buf target offset limit b y)
    show ?case
    proof (intro impI allI)
      fix w' buf' target' n
      assume p: "park = idle" and l: "12 \<le> length buf" and y: "y = Inr (w', buf', target', n)"
      show "state buf' = state buf
        \<or> (closed buf \<and> readPosition buf' = writePosition buf' \<and> state buf' = ToInt32 (state buf OR 2))"
      proof (cases "b < limit")
        case False
        then show ?thesis using step(2) y by simp
      next
        case True
        show ?thesis
        proof (cases "readPosition buf = writePosition buf")
          case e: True
          show ?thesis
          proof (cases "closed buf")
            case c: True
            then have "buf' = setEndOfStream buf" using step(2) True e y by (simp add: Let_def)
            then show ?thesis using c e accessors_Atomics_or_state [OF l, of 2]
              by (simp add: setEndOfStream_def)
          next
            case c: False
            have "Atomics_wait park w buf 1 (writePosition buf) = (w, buf)"
              unfolding p by (simp add: Atomics_wait_def idle_def)
            then have "f park w buf target offset limit b = Some y"
              using step(2) True e c by (simp add: Let_def)
            from step(1) [OF this] p l y show ?thesis by simp
          qed
        next
          case ne: False
          show ?thesis
          proof (cases "readBytes buf target (offset + b)")
            case (Inl e)
            then show ?thesis using step(2) True ne y by (simp add: Let_def)
          next
            case (Inr res)
            obtain b1 t1 k where res: "res = (b1, t1, k)" by (cases res) auto
            have fr: "state b1 = state buf" "length b1 = length buf"
              using readBytes_frame [OF Inr [unfolded res] l] by simp_all
            have "f park w b1 t1 offset limit (b + k) = Some y"
              using step(2) True ne Inr res by (simp add: Let_def)
            from step(1) [OF this] p l y fr show ?thesis by (simp add: closed_def state_def)
          qed
        qed
      qed
    qed
  qed
  from this [OF assms(1)] assms(2) show ?thesis by simp
qed

lemma closed_close: 
  assumes "stream_inv buf" "state buf = 0"
  shows "stream_inv (close buf)" "unread (close buf) = unread buf" "state (close buf) = 1"
    "closed (close buf)" "\<not> endOfStream (close buf)"
proof -
  have l: "12 \<le> length buf" using assms(1) by (simp add: stream_inv_def)
  show "stream_inv (close buf)" "unread (close buf) = unread buf"
    unfolding close_def setClosed_def by (rule stream_inv_Atomics_or_state [OF assms(1)])+
  show s: "state (close buf) = 1"
    unfolding close_def setClosed_def accessors_Atomics_or_state(3) [OF l] assms(2)
    by (simp add: ToInt32_id)
  show "closed (close buf)" "\<not> endOfStream (close buf)"
    using s by (simp_all add: closed_def endOfStream_def state_def)
qed


section \<open>The round trip when every read fills its target\<close>

text \<open>
  When each read asks for exactly the bytes its target holds from its offset on, writes that
  fit and reads of the same total return without waiting and deliver the written bytes in
  order; and on the idle channel reads with any targets and limits, if they return, have
  delivered a prefix of the written bytes.
\<close>

lemma round_trip_when_reads_fill_their_targets:
  assumes "stream_inv buf" "unread buf = []" "\<not> endOfStream buf"
    and "length (concat (map source_of ws)) < capacity buf"
    and "\<forall>c \<in> set rs. 0 \<le> offset_of c \<and> 0 \<le> limit_of c
        \<and> offset_of c + limit_of c = int (length (target_of c))"
    and "(\<Sum>c\<leftarrow>rs. limit_of c) = int (length (concat (map source_of ws)))"
  shows "\<exists>buf1 buf2 outs.
      writes producer_waits w buf ws = Some (Inr (w, buf1, map (\<lambda>c. int (length (source_of c))) ws))
      \<and> reads consumer_waits v buf1 rs = Some (Inr (v, buf2, outs))
      \<and> map snd outs = map limit_of rs
      \<and> concat (map2 delivered rs outs) = concat (map source_of ws)
      \<and> unread buf2 = []
      \<and> (\<forall>rs' u u' buf2' outs'.
            reads idle u buf1 rs' = Some (Inr (u', buf2', outs'))
            \<and> (\<forall>c \<in> set rs'. 0 \<le> offset_of c)
            \<longrightarrow> concat (map2 delivered rs' outs')
                = take (\<Sum>out\<leftarrow>outs'. nat (snd out)) (concat (map source_of ws)))"
proof -
  let ?N = "length (concat (map source_of ws))"
  have fit: "length (unread buf) + ?N < capacity buf" using assms(2,4) by simp
  from writes_fit [OF assms(1) fit, of producer_waits w] obtain buf1 where
    s: "writes producer_waits w buf ws = Some (Inr (w, buf1, map (\<lambda>c. int (length (source_of c))) ws))"
      "stream_inv buf1" "state buf1 = state buf" "unread buf1 = unread buf @ concat (map source_of ws)"
    by blast
  have u1: "unread buf1 = concat (map source_of ws)" using s(4) assms(2) by simp
  have eos: "\<not> endOfStream buf1" using assms(3) s(3) by (simp add: endOfStream_def state_def)
  have "int (\<Sum>c\<leftarrow>rs. nat (limit_of c)) = (\<Sum>c\<leftarrow>rs. limit_of c)"
    using assms(5) by (induction rs) simp_all
  then have sum: "(\<Sum>c\<leftarrow>rs. nat (limit_of c)) = ?N" using assms(6) by simp
  have le: "(\<Sum>c\<leftarrow>rs. nat (limit_of c)) \<le> length (unread buf1)" unfolding u1 sum by simp
  from reads_exact [OF s(2) eos assms(5) le, of consumer_waits v] obtain buf2 outs where
    r: "reads consumer_waits v buf1 rs = Some (Inr (v, buf2, outs))" "map snd outs = map limit_of rs"
      "concat (map2 delivered rs outs) = take (\<Sum>c\<leftarrow>rs. nat (limit_of c)) (unread buf1)"
      "unread buf2 = drop (\<Sum>c\<leftarrow>rs. nat (limit_of c)) (unread buf1)"
    by blast
  have g: "concat (map2 delivered rs' outs')
      = take (\<Sum>out\<leftarrow>outs'. nat (snd out)) (concat (map source_of ws))"
    if "reads idle u buf1 rs' = Some (Inr (u', buf2', outs'))" "\<forall>c \<in> set rs'. 0 \<le> offset_of c"
    for rs' u u' buf2' outs'
    using reads_prefix [OF that(1) s(2) that(2)] unfolding u1 by simp
  show ?thesis using s(1) r g unfolding sum u1
    by (intro exI [of _ buf1] exI [of _ buf2] exI [of _ outs]) simp
qed


section \<open>A read of an empty open stream that nobody fills\<close>

lemma readSync_loop_waits_forever:
  assumes "readPosition buf = writePosition buf" "\<not> closed buf" "b < limit"
  shows "readSync_loop idle w buf target offset limit b = None"
proof -
  have "readSync_loop park w buf target offset limit b = Some y \<Longrightarrow>
    \<not> (park = idle \<and> readPosition buf = writePosition buf \<and> \<not> closed buf \<and> b < limit)"
    for park y
  proof (induction rule: readSync_loop.raw_induct [rotated -1, consumes 1, case_names step])
    case (step f park w buf target offset limit b y)
    show ?case
    proof
      assume a: "park = idle \<and> readPosition buf = writePosition buf \<and> \<not> closed buf \<and> b < limit"
      have "Atomics_wait park w buf 1 (writePosition buf) = (w, buf)"
        using a by (simp add: Atomics_wait_def idle_def)
      then have "f park w buf target offset limit b = Some y"
        using step(2) a by (simp add: Let_def)
      from step(1) [OF this] a show False by simp
    qed
  qed
  then show ?thesis using assms by (cases "readSync_loop idle w buf target offset limit b") auto
qed


section \<open>A writer and a consumer\<close>




section \<open>The claims\<close>

text \<open>
  In the witnesses the stream is the one \<open>new SyncAsyncStream(36)\<close> creates, whose buffer is
  \<open>replicate 48 0\<close>, or that stream in a later state, given by its 48 bytes.
\<close>

text \<open>
  C1 (FIFO round-trip). The code does not keep it for every chunking of the reads. On the
  stream \<open>new SyncAsyncStream(36)\<close> creates, after a \<open>writeSync\<close> of five bytes,
  \<open>readSync(target, 0, 3)\<close> with a target of ten bytes takes all five bytes and returns 5,
  and the following \<open>readSync(target, 0, 2)\<close>, which completes the five bytes asked for,
  finds the buffer empty and open and never returns on the idle channel; so the sequence of
  the two reads does not return. The cause is that of C3: \<open>#readBytes\<close> does not bound a
  copy by what is left of the limit.
\<close>

theorem fifo_round_trip_fails:
  "constructor_size 36 = Inr (replicate 48 0)
   \<and> writes idle () (replicate 48 0) [WriteSync [1, 2, 3, 4, 5]]
       = Some (Inr ((), [0, 0, 0, 0, 5, 0, 0, 0, 0, 0, 0, 0, 1, 2, 3, 4, 5] @ replicate 31 0, [5]))
   \<and> do_read idle () ([0, 0, 0, 0, 5, 0, 0, 0, 0, 0, 0, 0, 1, 2, 3, 4, 5] @ replicate 31 0)
         (ReadSync (replicate 10 0) 0 3)
       = Some (Inr ((), [5, 0, 0, 0, 5, 0, 0, 0, 0, 0, 0, 0, 1, 2, 3, 4, 5] @ replicate 31 0,
                    [1, 2, 3, 4, 5, 0, 0, 0, 0, 0], 5))
   \<and> do_read idle () ([5, 0, 0, 0, 5, 0, 0, 0, 0, 0, 0, 0, 1, 2, 3, 4, 5] @ replicate 31 0)
         (ReadSync (replicate 10 0) 0 2)
       = None
   \<and> reads idle () ([0, 0, 0, 0, 5, 0, 0, 0, 0, 0, 0, 0, 1, 2, 3, 4, 5] @ replicate 31 0)
         [ReadSync (replicate 10 0) 0 3, ReadSync (replicate 10 0) 0 2]
       = None"
proof -
  let ?B1 = "[0, 0, 0, 0, 5, 0, 0, 0, 0, 0, 0, 0, 1, 2, 3, 4, 5] @ replicate 31 (0 :: byte)"
  let ?B2 = "[5, 0, 0, 0, 5, 0, 0, 0, 0, 0, 0, 0, 1, 2, 3, 4, 5] @ replicate 31 (0 :: byte)"
  have c: "constructor_size 36 = Inr (replicate 48 0)" by code_simp
  have w: "writes idle () (replicate 48 0) [WriteSync [1, 2, 3, 4, 5]] = Some (Inr ((), ?B1, [5]))"
    by code_simp
  have r1: "do_read idle () ?B1 (ReadSync (replicate 10 0) 0 3)
      = Some (Inr ((), ?B2, [1, 2, 3, 4, 5, 0, 0, 0, 0, 0], 5))"
    by code_simp
  have e: "readPosition ?B2 = writePosition ?B2" by code_simp
  have o: "\<not> closed ?B2" by code_simp
  have s: "\<not> endOfStream ?B2" by code_simp
  have r2: "do_read idle () ?B2 (ReadSync (replicate 10 0) 0 2) = None"
    using readSync_loop_waits_forever [OF e o, of 0 2 "()" "replicate 10 0" 0] s
    by (simp add: readSync_def)
  have t: "reads idle () ?B2 [ReadSync (replicate 10 0) 0 2] = None"
    by (subst reads.simps) (simp only: r2 option.case)
  have rs: "reads idle () ?B1 [ReadSync (replicate 10 0) 0 3, ReadSync (replicate 10 0) 0 2] = None"
    by (subst reads.simps) (simp only: r1 t option.case sum.case prod.case)
  show ?thesis using c w r1 r2 rs by blast
qed

text \<open>
  C2 (no overwrite). On a stream in order (both cursors in \<open>[0, capacity)\<close>), every
  \<open>#writeBytes\<close> returns, reports the read position it snapshotted, and leaves a write
  position different from that read position; the read position is untouched, the stream
  stays in order, and at most capacity - 1 bytes are unread afterwards. When the input is
  not empty the unread bytes afterwards are the unread bytes before followed by the bytes
  the call reports as written, so nothing unread was overwritten.
\<close>

theorem write_never_reaches_read_position:
  assumes "stream_inv buf"
  shows "\<exists>buf' n. writeBytes buf bytes = Inr (buf', n, readPosition buf)
     \<and> writePosition buf' \<noteq> readPosition buf \<and> readPosition buf' = readPosition buf
     \<and> stream_inv buf' \<and> length (unread buf') \<le> capacity buf - 1
     \<and> (bytes \<noteq> [] \<longrightarrow> 0 \<le> n \<and> unread buf' = unread buf @ take (nat n) bytes)"
proof -
  have cap: "stream_inv b \<Longrightarrow> length b = length buf \<Longrightarrow> length (unread b) \<le> capacity buf - 1" for b
    using length_unread [of b] by (simp add: capacity_def data_def)
  show ?thesis
  proof (cases "full buf")
    case True
    have wb: "writeBytes buf bytes = Inr (buf, 0, readPosition buf)"
      using True full_smod [OF assms] by (simp add: writeBytes_full)
    have "length (unread buf) + 1 = capacity buf" using True full_iff [OF assms] by simp
    moreover have "36 \<le> capacity buf" by (rule capacity_ge [OF assms])
    ultimately have "unread buf \<noteq> []" by auto
    then have ne: "writePosition buf \<noteq> readPosition buf"
      using unread_nonempty_iff [OF assms] by auto
    show ?thesis using wb ne assms cap [OF assms] by (intro exI [of _ buf] exI [of _ 0]) simp
  next
    case False
    show ?thesis
    proof (cases "bytes = []")
      case True
      from writeBytes_empty [OF assms False] obtain buf' n where
        e: "writeBytes buf [] = Inr (buf', n, readPosition buf)"
        "writePosition buf' \<noteq> readPosition buf" "readPosition buf' = readPosition buf"
        "stream_inv buf'" "length buf' = length buf" by blast
      show ?thesis using e(1-4) cap [OF e(4) e(5)] True
        by (intro exI [of _ buf'] exI [of _ n]) simp
    next
      case ne: False
      from writeBytes_step [OF assms False ne] obtain buf' k where
        s: "writeBytes buf bytes = Inr (buf', int k, readPosition buf)"
          "length (unread buf) + k < capacity buf"
          "stream_inv buf'" "length buf' = length buf" "readPosition buf' = readPosition buf"
          "unread buf' = unread buf @ take k bytes"
          "writePosition buf' \<noteq> readPosition buf"
        by blast
      show ?thesis using s cap [OF s(3) s(4)] by (intro exI [of _ buf'] exI [of _ "int k"]) simp
    qed
  qed
qed


theorem write_never_reaches_read_position_witness:
  "stream_inv (replicate 48 0)
   \<and> (\<exists>buf' n. writeBytes (replicate 48 0) [7] = Inr (buf', n, readPosition (replicate 48 0))
         \<and> writePosition buf' \<noteq> readPosition (replicate 48 0)
         \<and> readPosition buf' = readPosition (replicate 48 0)
         \<and> stream_inv buf' \<and> length (unread buf') \<le> capacity (replicate 48 0) - 1
         \<and> 0 \<le> n \<and> unread buf' = unread (replicate 48 0) @ take (nat n) [7])"
proof -
  have h: "stream_inv (replicate 48 0)" by code_simp
  show ?thesis
    using h write_never_reaches_read_position [OF h, of "[7]"] by simp
qed

text \<open>
  C3 (read respects the limit). The code does not: \<open>#readBytes\<close> bounds a copy by the room
  left in the target and by the contiguous span, not by what is left of the limit. On the
  stream \<open>new SyncAsyncStream(36)\<close> creates, after \<open>writeSync\<close> of five bytes,
  \<open>readSync(target, 0, 3)\<close> with a target of ten bytes copies five bytes and returns 5.
\<close>

theorem readSync_exceeds_limit:
  "constructor_size 36 = Inr (replicate 48 0)
   \<and> writeSync idle () (replicate 48 0) [1,2,3,4,5]
       = Some (Inr ((), [0,0,0,0, 5,0,0,0, 0,0,0,0, 1,2,3,4,5] @ replicate 31 0, 5))
   \<and> readSync idle () ([0,0,0,0, 5,0,0,0, 0,0,0,0, 1,2,3,4,5] @ replicate 31 0) (replicate 10 0) 0 3
       = Some (Inr ((), [5,0,0,0, 5,0,0,0, 0,0,0,0, 1,2,3,4,5] @ replicate 31 0,
                    [1,2,3,4,5,0,0,0,0,0], 5))"
  by code_simp

text \<open>
  C4 (end-of-stream is terminal). When the state word is greater than 1, \<open>readSync\<close> and
  \<open>read\<close> return -1 and leave the buffer (so both cursors, the state and the data region),
  the target and the counterpart's state as they were: nothing was written and no wait
  took place.
\<close>

theorem end_of_stream_is_terminal:
  assumes "1 < state buf"
  shows "readSync park w buf target offset limit = Some (Inr (w, buf, target, - 1))
    \<and> read suspend w buf target offset limit = Some (Inr (w, buf, target, - 1))"
  using assms by (simp add: readSync_def read_def endOfStream_def state_def)

theorem end_of_stream_is_terminal_witness:
  "1 < state ([2, 0, 0, 0, 2, 0, 0, 0, 3, 0, 0, 0, 1, 2] @ replicate 34 0)
   \<and> readSync idle () ([2, 0, 0, 0, 2, 0, 0, 0, 3, 0, 0, 0, 1, 2] @ replicate 34 0) [0, 0] 0 2
       = Some (Inr ((), [2, 0, 0, 0, 2, 0, 0, 0, 3, 0, 0, 0, 1, 2] @ replicate 34 0, [0, 0], - 1))
   \<and> read idle () ([2, 0, 0, 0, 2, 0, 0, 0, 3, 0, 0, 0, 1, 2] @ replicate 34 0) [0, 0] 0 2
       = Some (Inr ((), [2, 0, 0, 0, 2, 0, 0, 0, 3, 0, 0, 0, 1, 2] @ replicate 34 0, [0, 0], - 1))"
proof -
  have h: "1 < state ([2, 0, 0, 0, 2, 0, 0, 0, 3, 0, 0, 0, 1, 2] @ replicate 34 0)" by code_simp
  show ?thesis
    using h end_of_stream_is_terminal [OF h, of idle "()" "[0, 0]" 0 2 idle] by simp
qed

text \<open>
  C5 (close-then-drain), as stated: a read with limit at least K returns K, latches
  end-of-stream, and every later read returns -1. With limit equal to K this fails: the
  loop ends because the limit is reached, before the emptiness test that latches. Here
  K = 2: after \<open>close\<close>, \<open>readSync(target, 0, 2)\<close> returns 2 with the state still 1, and the
  next \<open>readSync\<close> returns 0, not -1, and only then latches (state 3).
\<close>

theorem close_then_drain_counterexample:
  "unread ([0,0,0,0, 2,0,0,0, 0,0,0,0, 1,2] @ replicate 34 0) = [1,2]
   \<and> close ([0,0,0,0, 2,0,0,0, 0,0,0,0, 1,2] @ replicate 34 0)
       = [0,0,0,0, 2,0,0,0, 1,0,0,0, 1,2] @ replicate 34 0
   \<and> readSync idle () ([0,0,0,0, 2,0,0,0, 1,0,0,0, 1,2] @ replicate 34 0) [0,0] 0 2
       = Some (Inr ((), [2,0,0,0, 2,0,0,0, 1,0,0,0, 1,2] @ replicate 34 0, [1,2], 2))
   \<and> \<not> endOfStream ([2,0,0,0, 2,0,0,0, 1,0,0,0, 1,2] @ replicate 34 0)
   \<and> readSync idle () ([2,0,0,0, 2,0,0,0, 1,0,0,0, 1,2] @ replicate 34 0) [0,0] 0 2
       = Some (Inr ((), [2,0,0,0, 2,0,0,0, 3,0,0,0, 1,2] @ replicate 34 0, [0,0], 0))"
  by code_simp


text \<open>
  C5, amended: the limit is greater than K. On a stream in order that is open (state 0)
  with K unread bytes, after \<open>close\<close> a \<open>readSync\<close> or \<open>read\<close> whose limit exceeds K and whose
  target has room for K bytes from the offset returns K without waiting, has put the K
  unread bytes, in order, into the target at the offset, and leaves the state at 3 with
  nothing unread; every \<open>readSync\<close> or \<open>read\<close> on the buffer it leaves returns -1 and
  changes nothing. And with an idle counterpart a \<open>readSync\<close> loop that returns changes
  the state word only by setting the end-of-stream bit, and only when the stream was closed
  and the buffer it leaves is empty.
\<close>

theorem close_then_drain:
  assumes "stream_inv buf" "state buf = 0"
    and "ofs + length (unread buf) \<le> length target" "length (unread buf) < l"
  shows "(\<exists>buf'. readSync consumer_waits v (close buf) target (int ofs) (int l)
        = Some (Inr (v, buf', take ofs target @ unread buf @ drop (ofs + length (unread buf)) target,
            int (length (unread buf))))
      \<and> read consumer_waits v (close buf) target (int ofs) (int l)
        = Some (Inr (v, buf', take ofs target @ unread buf @ drop (ofs + length (unread buf)) target,
            int (length (unread buf))))
      \<and> state buf' = 3 \<and> endOfStream buf' \<and> unread buf' = []
      \<and> readSync waits' v' buf' target' offset' limit' = Some (Inr (v', buf', target', - 1))
      \<and> read waits' v' buf' target' offset' limit' = Some (Inr (v', buf', target', - 1)))
    \<and> (12 \<le> length b \<and> readSync idle u b t off lim = Some (Inr (u', b', t', k))
          \<and> state b' \<noteq> state b
        \<longrightarrow> closed b \<and> readPosition b' = writePosition b' \<and> state b' = ToInt32 (state b OR 2))"
proof -
  note c = closed_close [OF assms(1,2)]
  have p3: "ofs + 0 + length (unread (close buf)) \<le> length target" unfolding c(2) using assms(3) by simp
  have p4: "0 + length (unread (close buf)) < l" unfolding c(2) using assms(4) by simp
  from readSync_loop_drain [OF c(1) c(4) p3 p4, of consumer_waits v] obtain b1 where
    r: "readSync_loop consumer_waits v (close buf) target (int ofs) (int l) (int 0)
        = Some (Inr (v, setEndOfStream b1,
            take (ofs + 0) target @ unread (close buf) @ drop (ofs + 0 + length (unread (close buf))) target,
            int (0 + length (unread (close buf)))))"
      "stream_inv b1" "state b1 = state (close buf)" "unread b1 = []"
    by blast
  have l1: "12 \<le> length b1" using r(2) by (simp add: stream_inv_def)
  have st: "state (setEndOfStream b1) = 3"
    unfolding setEndOfStream_def accessors_Atomics_or_state(3) [OF l1] r(3) c(3)
    by (simp add: ToInt32_id)
  have eos: "endOfStream (setEndOfStream b1)" using st by (simp add: endOfStream_def state_def)
  have u: "unread (setEndOfStream b1) = []"
    unfolding setEndOfStream_def stream_inv_Atomics_or_state(2) [OF r(2)] by (rule r(4))
  have rs: "readSync consumer_waits v (close buf) target (int ofs) (int l)
        = Some (Inr (v, setEndOfStream b1,
            take ofs target @ unread buf @ drop (ofs + length (unread buf)) target,
            int (length (unread buf))))"
    using r(1) c(5) unfolding c(2) by (simp add: readSync_def)
  have ra: "read consumer_waits v (close buf) target (int ofs) (int l)
        = readSync consumer_waits v (close buf) target (int ofs) (int l)"
    by (simp add: read_def readSync_def read_loop_eq)
  have first: "\<exists>buf'. readSync consumer_waits v (close buf) target (int ofs) (int l)
        = Some (Inr (v, buf', take ofs target @ unread buf @ drop (ofs + length (unread buf)) target,
            int (length (unread buf))))
      \<and> read consumer_waits v (close buf) target (int ofs) (int l)
        = Some (Inr (v, buf', take ofs target @ unread buf @ drop (ofs + length (unread buf)) target,
            int (length (unread buf))))
      \<and> state buf' = 3 \<and> endOfStream buf' \<and> unread buf' = []
      \<and> readSync waits' v' buf' target' offset' limit' = Some (Inr (v', buf', target', - 1))
      \<and> read waits' v' buf' target' offset' limit' = Some (Inr (v', buf', target', - 1))"
    using rs ra st eos u by (intro exI [of _ "setEndOfStream b1"]) (simp add: readSync_def read_def)
  have only: "closed b \<and> readPosition b' = writePosition b' \<and> state b' = ToInt32 (state b OR 2)"
    if "12 \<le> length b" "readSync idle u b t off lim = Some (Inr (u', b', t', k))"
      "state b' \<noteq> state b"
  proof (cases "endOfStream b")
    case True
    then have "b' = b" using that(2) by (simp add: readSync_def)
    then show ?thesis using that(3) by simp
  next
    case False
    then have "readSync_loop idle u b t off lim 0 = Some (Inr (u', b', t', k))"
      using that(2) by (simp add: readSync_def)
    from latch_only_when_closed_and_empty [OF this that(1)] that(3) show ?thesis by simp
  qed
  show ?thesis using first only by blast
qed


theorem close_then_drain_witness:
  "stream_inv ([0, 0, 0, 0, 2, 0, 0, 0, 0, 0, 0, 0, 1, 2] @ replicate 34 0)
   \<and> state ([0, 0, 0, 0, 2, 0, 0, 0, 0, 0, 0, 0, 1, 2] @ replicate 34 0) = 0
   \<and> unread ([0, 0, 0, 0, 2, 0, 0, 0, 0, 0, 0, 0, 1, 2] @ replicate 34 0) = [1, 2]
   \<and> (\<exists>buf'. readSync idle () (close ([0, 0, 0, 0, 2, 0, 0, 0, 0, 0, 0, 0, 1, 2] @ replicate 34 0))
                 [0, 0, 0] 0 3 = Some (Inr ((), buf', [1, 2, 0], 2))
         \<and> state buf' = 3
         \<and> readSync idle () buf' [0, 0, 0] 0 3 = Some (Inr ((), buf', [0, 0, 0], - 1)))"
proof -
  have h1: "stream_inv ([0, 0, 0, 0, 2, 0, 0, 0, 0, 0, 0, 0, 1, 2] @ replicate 34 0)" by code_simp
  have h2: "state ([0, 0, 0, 0, 2, 0, 0, 0, 0, 0, 0, 0, 1, 2] @ replicate 34 0) = 0" by code_simp
  have u: "unread ([0, 0, 0, 0, 2, 0, 0, 0, 0, 0, 0, 0, 1, 2] @ replicate 34 0) = [1, 2]"
    by code_simp
  have h3: "0 + length (unread ([0, 0, 0, 0, 2, 0, 0, 0, 0, 0, 0, 0, 1, 2] @ replicate 34 0))
      \<le> length [0, 0, 0 :: byte]" unfolding u by simp
  have h4: "length (unread ([0, 0, 0, 0, 2, 0, 0, 0, 0, 0, 0, 0, 1, 2] @ replicate 34 0)) < 3"
    unfolding u by simp
  from close_then_drain [where consumer_waits = idle and v = "()" and waits' = idle
        and v' = "()" and target' = "[0, 0, 0]" and offset' = 0 and limit' = 3,
      OF h1 h2 h3 h4, THEN conjunct1]
  have "\<exists>buf'. readSync idle () (close ([0, 0, 0, 0, 2, 0, 0, 0, 0, 0, 0, 0, 1, 2] @ replicate 34 0))
                 [0, 0, 0] 0 3 = Some (Inr ((), buf', [1, 2, 0], 2))
         \<and> state buf' = 3
         \<and> readSync idle () buf' [0, 0, 0] 0 3 = Some (Inr ((), buf', [0, 0, 0], - 1))"
    unfolding u by auto
  then show ?thesis using h1 h2 u by blast
qed

text \<open>
  C6 (zero bytes exactly when full). On a stream in order and for a non-empty input,
  \<open>#writeBytes\<close> returns, and the count it reports is 0 exactly when
  (writePosition + 1) mod capacity = readPosition held at its snapshot; when that does not
  hold the count is at least 1. The count is never more than the length of the input, and
  that many bytes from the front of the input have been appended to the unread bytes.
\<close>

theorem zero_bytes_iff_full:
  assumes "stream_inv buf" "bytes \<noteq> []"
  shows "\<exists>buf' n. writeBytes buf bytes = Inr (buf', n, readPosition buf)
     \<and> (n = 0 \<longleftrightarrow> (writePosition buf + 1) mod data_length buf = readPosition buf)
     \<and> ((writePosition buf + 1) mod data_length buf \<noteq> readPosition buf \<longrightarrow> 1 \<le> n)
     \<and> 0 \<le> n \<and> n \<le> int (length bytes)
     \<and> unread buf' = unread buf @ take (nat n) bytes"
proof (cases "full buf")
  case True
  have wb: "writeBytes buf bytes = Inr (buf, 0, readPosition buf)"
    using True full_smod [OF assms(1)] by (simp add: writeBytes_full)
  show ?thesis using wb True by (intro exI [of _ buf] exI [of _ 0]) (simp add: full_def)
next
  case False
  from writeBytes_step [OF assms(1) False assms(2)] obtain buf' k where
    s: "writeBytes buf bytes = Inr (buf', int k, readPosition buf)" "0 < k"
      "k \<le> length bytes" "unread buf' = unread buf @ take k bytes"
    by blast
  show ?thesis using s False by (intro exI [of _ buf'] exI [of _ "int k"]) (simp add: full_def)
qed

theorem zero_bytes_iff_full_witness:
  "stream_inv (replicate 48 0) \<and> [7 :: byte] \<noteq> []
   \<and> (\<exists>buf' n. writeBytes (replicate 48 0) [7] = Inr (buf', n, readPosition (replicate 48 0))
         \<and> 1 \<le> n)"
proof -
  have h: "stream_inv (replicate 48 0)" by code_simp
  have nf: "(writePosition (replicate 48 0) + 1) mod data_length (replicate 48 0)
      \<noteq> readPosition (replicate 48 0)" by code_simp
  from zero_bytes_iff_full [OF h, of "[7]"] nf
  show ?thesis using h by auto
qed



text \<open>
  C8 (reset). On the buffer of a stream object (one the constructor accepts), \<open>reset\<close>
  leaves readPosition, writePosition and state at 0 and changes neither the data region nor
  the length of the buffer, so the capacity and the views stay what they were.
\<close>

theorem reset_restores_virgin_state:
  assumes "constructor_buffer buf = Inr buf"
  shows "readPosition (reset buf) = 0 \<and> writePosition (reset buf) = 0 \<and> state (reset buf) = 0
    \<and> data (reset buf) = data buf \<and> length (reset buf) = length buf
    \<and> constructor_buffer (reset buf) = Inr (reset buf)"
proof -
  have l: "48 \<le> length buf" using assms
    by (auto simp: constructor_buffer_def new_Int32Array_def new_Uint8Array_def indexBytes_def
        split: if_splits sum.splits)
  have r: "reset buf = Atomics_store (Atomics_store (Atomics_store buf 0 0) 1 0) 2 0"
    by (simp add: reset_def upt_rec eval_nat_numeral)
  have z: "ToInt32 0 = 0" by (simp add: ToInt32_id)
  have len: "length (reset buf) = length buf" unfolding r by (simp add: length_Atomics_store)
  have "constructor_buffer (reset buf) = Inr (reset buf)"
    using l unfolding constructor_buffer_def new_Int32Array_def new_Uint8Array_def len
    by (simp add: indexBytes_def)
  then show ?thesis using l len unfolding r readPosition_def writePosition_def state_def
    by (simp add: Atomics_load_store_same Atomics_load_store_other length_Atomics_store
        data_Atomics_store z)
qed

theorem reset_restores_virgin_state_witness:
  "constructor_buffer ([2, 0, 0, 0, 2, 0, 0, 0, 3, 0, 0, 0, 1, 2] @ replicate 34 0)
     = Inr ([2, 0, 0, 0, 2, 0, 0, 0, 3, 0, 0, 0, 1, 2] @ replicate 34 0)
   \<and> readPosition (reset ([2, 0, 0, 0, 2, 0, 0, 0, 3, 0, 0, 0, 1, 2] @ replicate 34 0)) = 0
   \<and> writePosition (reset ([2, 0, 0, 0, 2, 0, 0, 0, 3, 0, 0, 0, 1, 2] @ replicate 34 0)) = 0
   \<and> state (reset ([2, 0, 0, 0, 2, 0, 0, 0, 3, 0, 0, 0, 1, 2] @ replicate 34 0)) = 0
   \<and> data (reset ([2, 0, 0, 0, 2, 0, 0, 0, 3, 0, 0, 0, 1, 2] @ replicate 34 0))
       = data ([2, 0, 0, 0, 2, 0, 0, 0, 3, 0, 0, 0, 1, 2] @ replicate 34 0)"
proof -
  have h: "constructor_buffer ([2, 0, 0, 0, 2, 0, 0, 0, 3, 0, 0, 0, 1, 2] @ replicate 34 0)
     = Inr ([2, 0, 0, 0, 2, 0, 0, 0, 3, 0, 0, 0, 1, 2] @ replicate 34 0)" by code_simp
  from reset_restores_virgin_state [OF h] h show ?thesis by blast
qed

text \<open>
  C9 (sync/async refinement). Given the same behaviour of the counterpart during a wait,
  \<open>write\<close> and \<open>writeSync\<close> are the same function of the buffer and the source, and \<open>read\<close>
  and \<open>readSync\<close> the same function of the buffer, the target, the offset and the limit:
  the same buffer afterwards, the same target, the same returned number, the same throw, or
  neither returns.
\<close>

theorem sync_async_refinement:
  "write_async wait w buf source = writeSync wait w buf source
   \<and> read wait w buf target offset limit = readSync wait w buf target offset limit"
  by (simp add: write_async_def writeSync_def read_def readSync_def write_async_loop_eq
      read_loop_eq)

theorem sync_async_refinement_witness:
  "write_async idle () ([0, 0, 0, 0, 2, 0, 0, 0, 0, 0, 0, 0, 1, 2] @ replicate 34 0) [3]
     = writeSync idle () ([0, 0, 0, 0, 2, 0, 0, 0, 0, 0, 0, 0, 1, 2] @ replicate 34 0) [3]
   \<and> read idle () ([0, 0, 0, 0, 2, 0, 0, 0, 0, 0, 0, 0, 1, 2] @ replicate 34 0) [0, 0] 0 2
     = readSync idle () ([0, 0, 0, 0, 2, 0, 0, 0, 0, 0, 0, 0, 1, 2] @ replicate 34 0) [0, 0] 0 2"
  by (rule sync_async_refinement
      [of idle "()" "[0, 0, 0, 0, 2, 0, 0, 0, 0, 0, 0, 0, 1, 2] @ replicate 34 0" "[3]" "[0, 0]" 0 2])

text \<open>
  C10 (construction needs 36 bytes). \<open>new SyncAsyncStream(sizeInBytes)\<close> throws for every
  size below 36 and succeeds from 36 on, with a zero-filled buffer of size + 12 bytes; the
  \<open>#index\<close> view then has 12 elements from byte 0 and the \<open>#data\<close> view starts at byte 12 and
  has \<open>sizeInBytes\<close> elements, all three control words are 0, and the accesses the class
  makes through \<open>#index\<close>, which are to elements 0, 1 and 2, and those it makes through
  \<open>#data\<close> do not touch each other's bytes.
\<close>

theorem constructor_needs_36_bytes:
  "(sizeInBytes < 36 \<longrightarrow> constructor_size sizeInBytes = Inl RangeError)
   \<and> (36 \<le> sizeInBytes \<longrightarrow>
        constructor_size sizeInBytes = Inr (replicate (nat sizeInBytes + 12) 0)
        \<and> new_Int32Array (replicate (nat sizeInBytes + 12) 0) 0 indexBytes = Inr (0, 12)
        \<and> new_Uint8Array (replicate (nat sizeInBytes + 12) 0) indexBytes = Inr (12, nat sizeInBytes)
        \<and> data (replicate (nat sizeInBytes + 12) 0) = replicate (nat sizeInBytes) 0
        \<and> readPosition (replicate (nat sizeInBytes + 12) 0) = 0
        \<and> writePosition (replicate (nat sizeInBytes + 12) 0) = 0
        \<and> state (replicate (nat sizeInBytes + 12) 0) = 0
        \<and> (i < 3 \<longrightarrow>
              data (Atomics_store (replicate (nat sizeInBytes + 12) 0) i v)
                = data (replicate (nat sizeInBytes + 12) 0)
              \<and> Atomics_load (take indexBytes (replicate (nat sizeInBytes + 12) 0) @ d) i
                = Atomics_load (replicate (nat sizeInBytes + 12) 0) i))"
proof -
  let ?buf = "replicate (nat sizeInBytes + 12) (0 :: byte)"
  have c: "constructor_size sizeInBytes
      = (if sizeInBytes < 36 then Inl RangeError else Inr ?buf)"
    by (auto simp: constructor_size_def constructor_buffer_def new_SharedArrayBuffer_def
        new_Int32Array_def new_Uint8Array_def indexBytes_def nat_add_distrib)
  have z: "ToInt32 0 = 0" by (simp add: ToInt32_id)
  have w: "Atomics_load ?buf j = 0" if "j < 3" for j
    using that by (simp add: Atomics_load_def z)
  have v: "new_Int32Array ?buf 0 indexBytes = Inr (0, 12)" if "36 \<le> sizeInBytes"
    using that by (simp add: new_Int32Array_def indexBytes_def)
  have u: "new_Uint8Array ?buf indexBytes = Inr (12, nat sizeInBytes)"
    by (simp add: new_Uint8Array_def indexBytes_def)
  have d: "data ?buf = replicate (nat sizeInBytes) 0"
    by (simp add: data_def indexBytes_def)
  have l: "12 \<le> length ?buf" by simp
  show ?thesis
    unfolding c readPosition_def writePosition_def state_def
    using v u d w data_Atomics_store [of i ?buf v] Atomics_load_data_region [OF _ l, of i d]
    by simp
qed

theorem constructor_needs_36_bytes_witness:
  "constructor_size 35 = Inl RangeError \<and> constructor_size 36 = Inr (replicate 48 0)
   \<and> data (replicate 48 0) = replicate 36 0"
  using constructor_needs_36_bytes [of 35] constructor_needs_36_bytes [of 36]
  by simp


end
